theory Spec2Isabelle
  imports Main "HOL-Library.Word"
begin

section \<open>The snapshot ledger (snapshotInfoContainer)\<close>

text \<open>
  The container wraps a Go \<^verbatim>\<open>container/list\<close> list. \<^verbatim>\<open>Add\<close> pushes at the front, so the
  front of the list is the newest entry and the back the oldest. The list is modelled by a
  HOL list whose head is the front element.

  The snapshot type (\<^verbatim>\<open>SnapshotInfo\<close>), \<^verbatim>\<open>getStabilityTSFromTsVbuuid\<close> and the comparisons
  of \<^verbatim>\<open>common.Timestamp\<close> are declared in other files of the repository. They are parameters of the
  model: \<open>snapTs\<close> stands for \<^verbatim>\<open>getStabilityTSFromTsVbuuid(snapshot.Timestamp())\<close>, the
  argument \<open>ts\<close> for \<^verbatim>\<open>getStabilityTSFromTsVbuuid(tsVbuuid)\<close>, and \<open>gt\<close>, \<open>ge\<close>, \<open>eq\<close> for
  \<^verbatim>\<open>GreaterThan\<close>, \<^verbatim>\<open>GreaterThanEqual\<close> and \<^verbatim>\<open>Equals\<close>; \<open>gt a b\<close> reads \<^verbatim>\<open>a.GreaterThan(b)\<close>.
  A Go \<^verbatim>\<open>error\<close> result is an option, \<open>None\<close> being \<^verbatim>\<open>nil\<close>.
\<close>

type_synonym 's snapshotInfoContainer = "'s list"

definition NewSnapshotInfoContainer :: "'s list \<Rightarrow> 's snapshotInfoContainer" where
  "NewSnapshotInfoContainer infos = foldl (\<lambda>sc info. sc @ [info]) [] infos"

definition List_sc :: "'s snapshotInfoContainer \<Rightarrow> 's list" where
  "List_sc sc = foldl (\<lambda>infos info. infos @ [info]) [] sc"

definition Add :: "'s \<Rightarrow> 's snapshotInfoContainer \<Rightarrow> 's snapshotInfoContainer" where
  "Add s sc = s # sc"

definition Len :: "'s snapshotInfoContainer \<Rightarrow> nat" where
  "Len sc = length sc"

text \<open>
  \<^verbatim>\<open>RemoveOldest\<close>: \<^verbatim>\<open>Back()\<close> is nil on an empty list; otherwise the back element is
  removed. The error returned is always nil.
\<close>

definition RemoveOldest :: "'s snapshotInfoContainer \<Rightarrow> 's snapshotInfoContainer \<times> string option" where
  "RemoveOldest sc = (case rev sc of [] \<Rightarrow> (sc, None) | e # _ \<Rightarrow> (butlast sc, None))"

definition RemoveAll :: "'s snapshotInfoContainer \<Rightarrow> 's snapshotInfoContainer \<times> string option" where
  "RemoveAll sc = ([], None)"

definition GetLatest :: "'s snapshotInfoContainer \<Rightarrow> 's option" where
  "GetLatest sc = (case sc of [] \<Rightarrow> None | e # _ \<Rightarrow> Some e)"

text \<open>
  The loop of \<^verbatim>\<open>RemoveRecentThanTS\<close> walks \<^verbatim>\<open>e := Front(); e != nil; e = e.Next()\<close> and calls
  \<^verbatim>\<open>Remove(e)\<close> on the element it stands on. \<^verbatim>\<open>Remove\<close> of \<^verbatim>\<open>container/list\<close> unlinks the
  element and clears its \<^verbatim>\<open>next\<close>, \<^verbatim>\<open>prev\<close> and \<^verbatim>\<open>list\<close> fields, and \<^verbatim>\<open>Next\<close> of an element
  whose \<^verbatim>\<open>list\<close> is nil returns nil. So the \<^verbatim>\<open>e.Next()\<close> of the loop's post statement is nil
  after a removal and the loop is left. The first argument of the loop function holds the
  elements already passed (still in the list), the second the elements from \<open>e\<close> on.
\<close>

fun RemoveRecentThanTS_loop ::
  "('t \<Rightarrow> 't \<Rightarrow> bool) \<Rightarrow> ('s \<Rightarrow> 't) \<Rightarrow> 't \<Rightarrow> 's list \<Rightarrow> 's list \<Rightarrow> 's list" where
  "RemoveRecentThanTS_loop gt snapTs ts passed [] = passed"
| "RemoveRecentThanTS_loop gt snapTs ts passed (e # rest) =
     (if gt (snapTs e) ts then passed @ rest
      else RemoveRecentThanTS_loop gt snapTs ts (passed @ [e]) rest)"

definition RemoveRecentThanTS ::
  "('t \<Rightarrow> 't \<Rightarrow> bool) \<Rightarrow> ('s \<Rightarrow> 't) \<Rightarrow> 's snapshotInfoContainer \<Rightarrow> 't
     \<Rightarrow> 's snapshotInfoContainer \<times> string option" where
  "RemoveRecentThanTS gt snapTs sc ts = (RemoveRecentThanTS_loop gt snapTs ts [] sc, None)"

fun GetEqualToTS :: "('t \<Rightarrow> 't \<Rightarrow> bool) \<Rightarrow> ('s \<Rightarrow> 't) \<Rightarrow> 's snapshotInfoContainer \<Rightarrow> 't \<Rightarrow> 's option" where
  "GetEqualToTS eq snapTs [] ts = None"
| "GetEqualToTS eq snapTs (e # rest) ts =
     (if eq ts (snapTs e) then Some e else GetEqualToTS eq snapTs rest ts)"

text \<open>
  \<^verbatim>\<open>GetOlderThanTS\<close>: the body of the loop returns the snapshot when
  \<^verbatim>\<open>ts.GreaterThanEqual(snapTs)\<close> and executes \<^verbatim>\<open>break\<close> otherwise, after which the
  function returns nil. Either way the loop body runs for the front element only.
\<close>

fun GetOlderThanTS :: "('t \<Rightarrow> 't \<Rightarrow> bool) \<Rightarrow> ('s \<Rightarrow> 't) \<Rightarrow> 's snapshotInfoContainer \<Rightarrow> 't \<Rightarrow> 's option" where
  "GetOlderThanTS ge snapTs [] ts = None"
| "GetOlderThanTS ge snapTs (e # rest) ts =
     (if ge ts (snapTs e) then Some e else None)"

text \<open>
  For concrete ledgers the timestamps of a bucket with a single vbucket are used: such a
  timestamp is one sequence number, and the elementwise comparisons are the comparisons
  of sequence numbers. A ledger entry is a name with its timestamp.
\<close>

definition ledger321 :: "(string \<times> nat) snapshotInfoContainer" where
  "ledger321 = Add (''S3'', 3) (Add (''S2'', 2) (Add (''S1'', 1) (NewSnapshotInfoContainer [])))"

subsection \<open>The loop of RemoveRecentThanTS on the elements of container/list\<close>

text \<open>
  To check the reading of the loop given above, the list of Go's standard library is
  modelled with its pointers. An element has the fields \<^verbatim>\<open>next\<close>, \<^verbatim>\<open>prev\<close>, \<^verbatim>\<open>list\<close> and
  \<^verbatim>\<open>Value\<close>; a list is a ring of elements through the sentinel \<^verbatim>\<open>root\<close>, with its length.
  The library's functions, as far as the ledger uses them:
  \<^verbatim>\<open>
  func (e *Element) Next() *Element {
      if p := e.next; e.list != nil && p != &e.list.root { return p }
      return nil }
  func (l *List) Front() *Element {
      if l.len == 0 { return nil }
      return l.root.next }
  func (l *List) insert(e, at *Element) *Element {
      e.prev = at; e.next = at.next; e.prev.next = e; e.next.prev = e
      e.list = l; l.len++; return e }
  func (l *List) PushFront(v any) *Element { return l.insert(&Element{Value: v}, &l.root) }
  func (l *List) remove(e *Element) {
      e.prev.next = e.next; e.next.prev = e.prev
      e.next = nil; e.prev = nil; e.list = nil; l.len-- }
  func (l *List) Remove(e *Element) any {
      if e.list == l { l.remove(e) }
      return e.Value }
  \<close>
  Elements live at addresses; the root of the one list is at address 0, and \<open>top\<close> is the
  next address to allocate. The field \<^verbatim>\<open>list\<close> is a truth value: the element belongs to
  the list or to none. A result \<open>None\<close> of these functions is a nil dereference.
\<close>

record 's Element =
  el_next :: "nat option"
  el_prev :: "nat option"
  el_list :: bool
  el_Value :: "'s option"

record 's List =
  elem :: "nat \<Rightarrow> 's Element"
  len :: nat
  top :: nat

definition list_New :: "'s List" where
  "list_New =
     \<lparr>elem = (\<lambda>a. \<lparr>el_next = None, el_prev = None, el_list = False, el_Value = None\<rparr>)
               (0 := \<lparr>el_next = Some 0, el_prev = Some 0, el_list = False, el_Value = None\<rparr>),
      len = 0, top = 1\<rparr>"

definition list_Front :: "'s List \<Rightarrow> nat option" where
  "list_Front l = (if len l = 0 then None else el_next (elem l 0))"

definition list_Next :: "nat \<Rightarrow> 's List \<Rightarrow> nat option" where
  "list_Next e l =
     (let p = el_next (elem l e) in if el_list (elem l e) \<and> p \<noteq> Some 0 then p else None)"

definition list_insert :: "nat \<Rightarrow> nat \<Rightarrow> 's List \<Rightarrow> 's List option" where
  "list_insert e at l =
     (let h1 = (elem l)(e := (elem l e)\<lparr>el_prev := Some at\<rparr>);
          h2 = h1(e := (h1 e)\<lparr>el_next := el_next (h1 at)\<rparr>)
      in case el_prev (h2 e) of
           None \<Rightarrow> None
         | Some p \<Rightarrow>
             let h3 = h2(p := (h2 p)\<lparr>el_next := Some e\<rparr>) in
             (case el_next (h3 e) of
                None \<Rightarrow> None
              | Some n \<Rightarrow>
                  let h4 = h3(n := (h3 n)\<lparr>el_prev := Some e\<rparr>);
                      h5 = h4(e := (h4 e)\<lparr>el_list := True\<rparr>)
                  in Some (l\<lparr>elem := h5, len := len l + 1\<rparr>)))"

definition list_PushFront :: "'s \<Rightarrow> 's List \<Rightarrow> 's List option" where
  "list_PushFront v l =
     list_insert (top l) 0
       (l\<lparr>elem := (elem l)(top l := \<lparr>el_next = None, el_prev = None, el_list = False, el_Value = Some v\<rparr>),
          top := Suc (top l)\<rparr>)"

definition list_remove :: "nat \<Rightarrow> 's List \<Rightarrow> 's List option" where
  "list_remove e l =
     (case el_prev (elem l e) of
        None \<Rightarrow> None
      | Some p \<Rightarrow>
          let h1 = (elem l)(p := (elem l p)\<lparr>el_next := el_next (elem l e)\<rparr>) in
          (case el_next (h1 e) of
             None \<Rightarrow> None
           | Some n \<Rightarrow>
               let h2 = h1(n := (h1 n)\<lparr>el_prev := el_prev (h1 e)\<rparr>);
                   h3 = h2(e := (h2 e)\<lparr>el_next := None, el_prev := None, el_list := False\<rparr>)
               in Some (l\<lparr>elem := h3, len := len l - 1\<rparr>)))"

definition list_Remove :: "nat \<Rightarrow> 's List \<Rightarrow> 's List option" where
  "list_Remove e l = (if el_list (elem l e) then list_remove e l else Some l)"

text \<open>
  The values of the list from the front on, for a list of the given length; and the loop
  of \<^verbatim>\<open>RemoveRecentThanTS\<close> with the element pointer \<open>e\<close> as its loop variable. The snapshot
  of an element is its \<^verbatim>\<open>Value\<close>. \<open>None\<close> is a nil dereference or a loop that does not end.
\<close>

fun list_values :: "nat \<Rightarrow> nat option \<Rightarrow> 's List \<Rightarrow> 's option list" where
  "list_values 0 e l = []"
| "list_values (Suc k) None l = []"
| "list_values (Suc k) (Some a) l = el_Value (elem l a) # list_values k (list_Next a l) l"

partial_function (option) RemoveRecentThanTS_elements ::
  "('t \<Rightarrow> 't \<Rightarrow> bool) \<Rightarrow> ('s \<Rightarrow> 't) \<Rightarrow> 't \<Rightarrow> nat option \<Rightarrow> 's List \<Rightarrow> 's List option" where
  "RemoveRecentThanTS_elements gt snapTs ts e l =
     (case e of
        None \<Rightarrow> Some l
      | Some a \<Rightarrow>
          (case el_Value (elem l a) of
             None \<Rightarrow> None
           | Some snapshot \<Rightarrow>
               (case (if gt (snapTs snapshot) ts then list_Remove a l else Some l) of
                  None \<Rightarrow> None
                | Some l1 \<Rightarrow> RemoveRecentThanTS_elements gt snapTs ts (list_Next a l1) l1)))"

text \<open>The ledger holding S3, S2, S1 as a linked list: S1, S2, S3 pushed at the front.\<close>

definition elements321 :: "(string \<times> nat) List" where
  "elements321 =
     (case list_PushFront (''S1'', 1) list_New of
        None \<Rightarrow> list_New
      | Some l1 \<Rightarrow>
          (case list_PushFront (''S2'', 2) l1 of
             None \<Rightarrow> list_New
           | Some l2 \<Rightarrow>
               (case list_PushFront (''S3'', 3) l2 of None \<Rightarrow> list_New | Some l3 \<Rightarrow> l3)))"

section \<open>The per-vbucket mutation queue (atomicMutationQueue)\<close>

text \<open>
  Modelled from the spec: the declarations of \<^verbatim>\<open>MutationKeys\<close> and of its \<^verbatim>\<open>meta\<close> part are
  missing (they are in another file of the package). The spec gives a mutation a shard id, a sequence number, a document key
  and the secondary-index keys; the queue reads \<^verbatim>\<open>m.meta.seqno\<close> only. \<^verbatim>\<open>Seqno\<close> is an
  unsigned 64-bit number.

  A \<^verbatim>\<open>*MutationKeys\<close> is modelled by the value it points to, with \<open>None\<close> for nil: the queue
  never writes through the pointer. \<^verbatim>\<open>Vbucket\<close>, also declared elsewhere, is taken to be an
  unsigned 32-bit integer, so that the test \<^verbatim>\<open>vbucket < 0\<close> of \<^verbatim>\<open>Enqueue\<close> is never true.
\<close>

type_synonym Seqno = "64 word"
type_synonym Vbucket = "32 word"

record MutationMeta =
  vbucket :: Vbucket
  seqno :: Seqno

record MutationKeys =
  meta :: MutationMeta
  docid :: string
  keys :: "string list"

text \<open>
  Nodes live in the Go heap. A \<^verbatim>\<open>*node\<close> is \<open>None\<close> (nil) or the address of a node; the heap
  maps every address to the node stored there, and \<open>brk\<close> is the first address that
  \<^verbatim>\<open>&node{}\<close> has not handed out yet. The heap and \<open>brk\<close> are carried in the queue record,
  next to the fields of the Go struct.
\<close>

record node =
  mutation :: "MutationKeys option"
  nxt :: "nat option"

record atomicMutationQueue =
  head :: "nat option list"
  tail :: "nat option list"
  free :: "nat option list"
  numVbuckets :: "16 word"
  size_q :: "64 word list"
  heap :: "nat \<Rightarrow> node"
  brk :: nat

text \<open>
  What a call can end with instead of its result: the error \<^verbatim>\<open>vbucket out of range\<close> that
  \<^verbatim>\<open>Enqueue\<close> returns, and the two run-time panics of Go that the code can reach (an index
  beyond a slice, a field of a nil pointer).
\<close>

datatype fault = ErrVbucketOutOfRange | PanicIndexOutOfRange | PanicNilDereference

definition zero_node :: node where
  "zero_node = \<lparr>mutation = None, nxt = None\<rparr>"

text \<open>
  \<^verbatim>\<open>NewAtomicMutationQueue\<close>: the loop allocates one sentinel node per vbucket; in a heap
  without other nodes these get the addresses \<open>0, 1, ...\<close> in the order of the loop.
\<close>

definition NewAtomicMutationQueue :: "16 word \<Rightarrow> atomicMutationQueue" where
  "NewAtomicMutationQueue n =
     \<lparr>head = map Some [0..<unat n],
      tail = map Some [0..<unat n],
      free = map Some [0..<unat n],
      numVbuckets = n,
      size_q = replicate (unat n) 0,
      heap = (\<lambda>a. zero_node),
      brk = unat n\<rparr>"

definition popFreeList :: "Vbucket \<Rightarrow> atomicMutationQueue
    \<Rightarrow> fault + (nat option \<times> string option \<times> atomicMutationQueue)" where
  "popFreeList vb q =
     (let i = unat vb in
      if length (free q) \<le> i \<or> length (head q) \<le> i then Inl PanicIndexOutOfRange
      else if free q ! i \<noteq> head q ! i then
        (case free q ! i of
           None \<Rightarrow> Inl PanicNilDereference
         | Some n \<Rightarrow>
             let q1 = q\<lparr>free := list_update (free q) i (nxt (heap q n))\<rparr>;
                 q2 = q1\<lparr>heap := (heap q1)(n := (heap q1 n)\<lparr>mutation := None\<rparr>)\<rparr>;
                 q3 = q2\<lparr>heap := (heap q2)(n := (heap q2 n)\<lparr>nxt := None\<rparr>)\<rparr>
             in Inr (Some n, None, q3))
      else Inr (None, Some ''Free List Empty'', q))"

definition allocNode :: "Vbucket \<Rightarrow> atomicMutationQueue
    \<Rightarrow> fault + (nat option \<times> atomicMutationQueue)" where
  "allocNode vb q =
     (case popFreeList vb q of
        Inl f \<Rightarrow> Inl f
      | Inr (n, err, q1) \<Rightarrow>
          if err = None then Inr (n, q1)
          else Inr (Some (brk q1), q1\<lparr>heap := (heap q1)(brk q1 := zero_node), brk := Suc (brk q1)\<rparr>))"

definition Enqueue :: "MutationKeys option \<Rightarrow> Vbucket \<Rightarrow> atomicMutationQueue
    \<Rightarrow> fault + atomicMutationQueue" where
  "Enqueue m vb q =
     (let i = unat vb in
      if vb > ucast (numVbuckets q) - 1 then Inl ErrVbucketOutOfRange
      else case allocNode vb q of
        Inl f \<Rightarrow> Inl f
      | Inr (None, q1) \<Rightarrow> Inl PanicNilDereference
      | Inr (Some n, q1) \<Rightarrow>
          let q2 = q1\<lparr>heap := (heap q1)(n := (heap q1 n)\<lparr>mutation := m\<rparr>)\<rparr>;
              q3 = q2\<lparr>heap := (heap q2)(n := (heap q2 n)\<lparr>nxt := None\<rparr>)\<rparr>
          in if length (tail q3) \<le> i \<or> length (size_q q3) \<le> i then Inl PanicIndexOutOfRange
          else (case tail q3 ! i of
              None \<Rightarrow> Inl PanicNilDereference
            | Some t \<Rightarrow>
                let q4 = q3\<lparr>heap := (heap q3)(t := (heap q3 t)\<lparr>nxt := Some n\<rparr>)\<rparr>;
                    q5 = q4\<lparr>tail := list_update (tail q4) i (nxt (heap q4 t))\<rparr>
                in Inr (q5\<lparr>size_q := list_update (size_q q5) i (size_q q5 ! i + 1)\<rparr>)))"

definition DequeueSingleElement :: "Vbucket \<Rightarrow> atomicMutationQueue
    \<Rightarrow> fault + (MutationKeys option \<times> atomicMutationQueue)" where
  "DequeueSingleElement vb q =
     (let i = unat vb in
      if length (head q) \<le> i \<or> length (tail q) \<le> i \<or> length (size_q q) \<le> i
      then Inl PanicIndexOutOfRange
      else if head q ! i \<noteq> tail q ! i then
        (case head q ! i of
           None \<Rightarrow> Inl PanicNilDereference
         | Some h \<Rightarrow>
             (case nxt (heap q h) of
                None \<Rightarrow> Inl PanicNilDereference
              | Some n \<Rightarrow>
                  let m = mutation (heap q n);
                      q1 = q\<lparr>head := list_update (head q) i (nxt (heap q h))\<rparr>;
                      q2 = q1\<lparr>size_q := list_update (size_q q1) i (size_q q1 ! i - 1)\<rparr>
                  in Inr (m, q2)))
      else Inr (None, q))"

definition PeekTail :: "Vbucket \<Rightarrow> atomicMutationQueue \<Rightarrow> fault + MutationKeys option" where
  "PeekTail vb q =
     (let i = unat vb in
      if length (head q) \<le> i \<or> length (tail q) \<le> i then Inl PanicIndexOutOfRange
      else if head q ! i \<noteq> tail q ! i then
        (case tail q ! i of
           None \<Rightarrow> Inl PanicNilDereference
         | Some t \<Rightarrow> Inr (mutation (heap q t)))
      else Inr None)"

definition PeekHead :: "Vbucket \<Rightarrow> atomicMutationQueue \<Rightarrow> fault + MutationKeys option" where
  "PeekHead vb q =
     (let i = unat vb in
      if length (head q) \<le> i \<or> length (tail q) \<le> i then Inl PanicIndexOutOfRange
      else if head q ! i \<noteq> tail q ! i then
        (case head q ! i of
           None \<Rightarrow> Inl PanicNilDereference
         | Some h \<Rightarrow> Inr (mutation (heap q h)))
      else Inr None)"

definition GetSize :: "Vbucket \<Rightarrow> atomicMutationQueue \<Rightarrow> fault + 64 word" where
  "GetSize vb q =
     (if length (size_q q) \<le> unat vb then Inl PanicIndexOutOfRange
      else Inr (size_q q ! unat vb))"

definition GetNumVbuckets :: "atomicMutationQueue \<Rightarrow> 16 word" where
  "GetNumVbuckets q = numVbuckets q"

text \<open>
  \<^verbatim>\<open>dequeueUptoSeqno\<close> runs two nested loops. The inner loop runs while the queue of the
  vbucket is not empty; its state is the queue, \<^verbatim>\<open>dequeueCount\<close> and the mutations sent on
  \<^verbatim>\<open>datach\<close> so far (the receiver is taken to accept every send). It ends with \<open>True\<close> when
  the function closed the channel and returned, with \<open>False\<close> when the loop condition
  failed. A loop that does not end has the value \<open>None\<close>.
\<close>

partial_function (option) dequeueUptoSeqno_inner ::
  "Vbucket \<Rightarrow> Seqno \<Rightarrow> atomicMutationQueue \<times> nat \<times> MutationKeys list
     \<Rightarrow> (fault + bool \<times> atomicMutationQueue \<times> nat \<times> MutationKeys list) option" where
  "dequeueUptoSeqno_inner vb sq st =
     (case st of (q, dequeueCount, sent) \<Rightarrow>
      let i = unat vb in
      if length (head q) \<le> i \<or> length (tail q) \<le> i \<or> length (size_q q) \<le> i
      then Some (Inl PanicIndexOutOfRange)
      else if head q ! i \<noteq> tail q ! i then
        (case head q ! i of
           None \<Rightarrow> Some (Inl PanicNilDereference)
         | Some h \<Rightarrow>
             (case nxt (heap q h) of
                None \<Rightarrow> Some (Inl PanicNilDereference)
              | Some n \<Rightarrow>
                  (case mutation (heap q n) of
                     None \<Rightarrow> Some (Inl PanicNilDereference)
                   | Some m \<Rightarrow>
                       let st1 =
                            (if sq \<ge> seqno (meta m)
                             then (q\<lparr>head := list_update (head q) i (nxt (heap q h)),
                                     size_q := list_update (size_q q) i (size_q q ! i - 1)\<rparr>,
                                   dequeueCount + 1, sent @ [m])
                             else (q, dequeueCount, sent))
                       in if sq \<le> seqno (meta m)
                          then Some (Inr (True, st1))
                          else dequeueUptoSeqno_inner vb sq st1)))
      else Some (Inr (False, q, dequeueCount, sent)))"

text \<open>
  The outer loop runs once per tick of the ticker. No other goroutine touches the queue
  (no enqueues happen during the call), so each tick finds the queue as the previous one
  left it. The result is the list of mutations sent before the channel was closed, with
  the queue then; \<open>None\<close> when the channel is never closed.
\<close>

partial_function (option) dequeueUptoSeqno_ticks ::
  "Vbucket \<Rightarrow> Seqno \<Rightarrow> atomicMutationQueue \<times> nat \<times> MutationKeys list
     \<Rightarrow> (fault + MutationKeys list \<times> atomicMutationQueue) option" where
  "dequeueUptoSeqno_ticks vb sq st =
     (case dequeueUptoSeqno_inner vb sq st of
        None \<Rightarrow> None
      | Some (Inl f) \<Rightarrow> Some (Inl f)
      | Some (Inr (returned, q, dequeueCount, sent)) \<Rightarrow>
          if returned then Some (Inr (sent, q))
          else if dequeueCount = 0 then Some (Inr (sent, q))
          else dequeueUptoSeqno_ticks vb sq (q, dequeueCount, sent))"

definition dequeueUptoSeqno :: "Vbucket \<Rightarrow> Seqno \<Rightarrow> atomicMutationQueue
    \<Rightarrow> (fault + MutationKeys list \<times> atomicMutationQueue) option" where
  "dequeueUptoSeqno vb sq q = dequeueUptoSeqno_ticks vb sq (q, 0, [])"

text \<open>
  Sequences of calls on one vbucket: \<open>enqueue_all\<close> enqueues the given mutations in order,
  \<open>dequeue_n\<close> calls \<^verbatim>\<open>DequeueSingleElement\<close> the given number of times and collects what
  the calls return.
\<close>

fun enqueue_all :: "MutationKeys option list \<Rightarrow> Vbucket \<Rightarrow> atomicMutationQueue
    \<Rightarrow> fault + atomicMutationQueue" where
  "enqueue_all [] vb q = Inr q"
| "enqueue_all (m # ms) vb q =
     (case Enqueue m vb q of Inl f \<Rightarrow> Inl f | Inr q1 \<Rightarrow> enqueue_all ms vb q1)"

fun dequeue_n :: "nat \<Rightarrow> Vbucket \<Rightarrow> atomicMutationQueue
    \<Rightarrow> fault + (MutationKeys option list \<times> atomicMutationQueue)" where
  "dequeue_n 0 vb q = Inr ([], q)"
| "dequeue_n (Suc k) vb q =
     (case DequeueSingleElement vb q of
        Inl f \<Rightarrow> Inl f
      | Inr (m, q1) \<Rightarrow>
          (case dequeue_n k vb q1 of Inl f \<Rightarrow> Inl f | Inr (ms, q2) \<Rightarrow> Inr (m # ms, q2)))"

text \<open>
  The queue states that the program can be in: the one \<^verbatim>\<open>NewAtomicMutationQueue\<close> returns
  and those that calls of \<^verbatim>\<open>Enqueue\<close> and \<^verbatim>\<open>DequeueSingleElement\<close>, on any vbuckets and in
  any order, lead to from there.
\<close>

inductive reachable :: "atomicMutationQueue \<Rightarrow> bool" where
  reachable_New: "reachable (NewAtomicMutationQueue n)"
| reachable_Enqueue: "reachable q \<Longrightarrow> Enqueue m vb q = Inr q1 \<Longrightarrow> reachable q1"
| reachable_Dequeue: "reachable q \<Longrightarrow> DequeueSingleElement vb q = Inr (m, q1) \<Longrightarrow> reachable q1"

text \<open>
  Calls of \<^verbatim>\<open>Enqueue\<close> and \<^verbatim>\<open>DequeueSingleElement\<close> on one vbucket in any order. The number
  returned with the final queue counts the dequeues that removed an element, which are
  those that found the queue of the vbucket non-empty (head and tail pointers differ).
\<close>

datatype op = Enq "MutationKeys option" | Deq

fun enqueues :: "op list \<Rightarrow> nat" where
  "enqueues [] = 0"
| "enqueues (Enq m # ops) = Suc (enqueues ops)"
| "enqueues (Deq # ops) = enqueues ops"

fun run_ops :: "op list \<Rightarrow> Vbucket \<Rightarrow> atomicMutationQueue \<Rightarrow> fault + (atomicMutationQueue \<times> nat)" where
  "run_ops [] vb q = Inr (q, 0)"
| "run_ops (Enq m # ops) vb q =
     (case Enqueue m vb q of Inl f \<Rightarrow> Inl f | Inr q1 \<Rightarrow> run_ops ops vb q1)"
| "run_ops (Deq # ops) vb q =
     (case DequeueSingleElement vb q of
        Inl f \<Rightarrow> Inl f
      | Inr (m, q1) \<Rightarrow>
          (case run_ops ops vb q1 of
             Inl f \<Rightarrow> Inl f
           | Inr (q2, removed) \<Rightarrow>
               Inr (q2, if head q ! unat vb \<noteq> tail q ! unat vb then Suc removed else removed)))"

text \<open>
  What a call of \<^verbatim>\<open>dequeueUptoSeqno\<close> with watermark \<open>sq\<close> does to a queue holding the
  mutations \<open>ms\<close> (oldest first), read off the two loops: every mutation below the
  watermark is sent; a mutation equal to the watermark is sent and ends the call; a
  mutation above the watermark ends the call unsent. \<open>closes sq ms c\<close> tells whether the
  channel gets closed when \<^verbatim>\<open>dequeueCount\<close> is \<open>c\<close> on entry: it does when such an ending
  mutation exists, and else only if nothing at all has been sent.
\<close>

fun delivered :: "Seqno \<Rightarrow> MutationKeys list \<Rightarrow> MutationKeys list" where
  "delivered sq [] = []"
| "delivered sq (m # ms) =
     (if seqno (meta m) < sq then m # delivered sq ms
      else if seqno (meta m) = sq then [m] else [])"

fun closes :: "Seqno \<Rightarrow> MutationKeys list \<Rightarrow> nat \<Rightarrow> bool" where
  "closes sq [] c = (c = 0)"
| "closes sq (m # ms) c = (if seqno (meta m) < sq then closes sq ms (Suc c) else True)"

text \<open>
  Example data: a mutation of vbucket 0 with the given sequence number and document key,
  and the queue states reached by a run of enqueues, of dequeues or by a call of
  \<^verbatim>\<open>dequeueUptoSeqno\<close> (the argument state itself if the run fails or does not end).
\<close>

definition mk :: "Seqno \<Rightarrow> string \<Rightarrow> MutationKeys" where
  "mk s d = \<lparr>meta = \<lparr>vbucket = 0, seqno = s\<rparr>, docid = d, keys = []\<rparr>"

definition enqueued :: "MutationKeys option list \<Rightarrow> Vbucket \<Rightarrow> atomicMutationQueue \<Rightarrow> atomicMutationQueue" where
  "enqueued ms vb q = (case enqueue_all ms vb q of Inl f \<Rightarrow> q | Inr q1 \<Rightarrow> q1)"

definition dequeued :: "nat \<Rightarrow> Vbucket \<Rightarrow> atomicMutationQueue \<Rightarrow> atomicMutationQueue" where
  "dequeued k vb q = (case dequeue_n k vb q of Inl f \<Rightarrow> q | Inr (ms, q1) \<Rightarrow> q1)"

definition drained :: "Vbucket \<Rightarrow> Seqno \<Rightarrow> atomicMutationQueue \<Rightarrow> atomicMutationQueue" where
  "drained vb sq q = (case dequeueUptoSeqno vb sq q of Some (Inr (sent, q1)) \<Rightarrow> q1 | _ \<Rightarrow> q)"

subsection \<open>The linked lists behind a queue state\<close>

text \<open>
  \<open>path nx p as r\<close>: following the \<^verbatim>\<open>next\<close> fields from pointer \<open>p\<close> visits the nodes \<open>as\<close>
  in order and arrives at pointer \<open>r\<close>.
\<close>

primrec path :: "(nat \<Rightarrow> nat option) \<Rightarrow> nat option \<Rightarrow> nat list \<Rightarrow> nat option \<Rightarrow> bool" where
  "path nx p [] r \<longleftrightarrow> p = r"
| "path nx p (a # as) r \<longleftrightarrow> p = Some a \<and> path nx (nx a) as r"

text \<open>
  The nodes of vbucket \<open>i\<close> form one list: the free nodes \<open>fs\<close> from the free pointer up to
  the head pointer, then the head node followed by the queued nodes up to the tail
  node \<open>t\<close>. The head node is a sentinel: the queued mutations \<open>xs\<close> are the payloads of
  the nodes after it, \<open>l\<close> is the payload the sentinel itself still carries, and the size
  counter is the number of queued nodes.
\<close>

definition shard_rep :: "atomicMutationQueue \<Rightarrow> nat \<Rightarrow> nat list \<times> nat list \<times> nat
    \<Rightarrow> MutationKeys option list \<Rightarrow> MutationKeys option \<Rightarrow> bool" where
  "shard_rep q i g xs l \<longleftrightarrow>
     (case g of (fs, ds, t) \<Rightarrow>
        path (\<lambda>a. nxt (heap q a)) (free q ! i) fs (head q ! i)
      \<and> path (\<lambda>a. nxt (heap q a)) (head q ! i) ds (Some t)
      \<and> tail q ! i = Some t
      \<and> distinct (fs @ ds @ [t])
      \<and> (\<forall>a \<in> set (fs @ ds @ [t]). a < brk q)
      \<and> xs = map (\<lambda>a. mutation (heap q a)) (tl (ds @ [t]))
      \<and> l = mutation (heap q (hd (ds @ [t])))
      \<and> size_q q ! i = word_of_nat (length ds))"

definition cells :: "nat list \<times> nat list \<times> nat \<Rightarrow> nat set" where
  "cells g = (case g of (fs, ds, t) \<Rightarrow> set (fs @ ds @ [t]))"

text \<open>
  \<open>rep_with q G A L\<close>: the queue state \<open>q\<close> holds, for every vbucket \<open>i\<close>, the mutations
  \<open>A i\<close> (oldest first) on the nodes \<open>G i\<close>, and no node belongs to two vbuckets.
\<close>

definition rep_with :: "atomicMutationQueue \<Rightarrow> (nat \<Rightarrow> nat list \<times> nat list \<times> nat)
    \<Rightarrow> (nat \<Rightarrow> MutationKeys option list) \<Rightarrow> (nat \<Rightarrow> MutationKeys option) \<Rightarrow> bool" where
  "rep_with q G A L \<longleftrightarrow>
     length (head q) = unat (numVbuckets q) \<and> length (tail q) = unat (numVbuckets q)
   \<and> length (free q) = unat (numVbuckets q) \<and> length (size_q q) = unat (numVbuckets q)
   \<and> (\<forall>i < unat (numVbuckets q). shard_rep q i (G i) (A i) (L i))
   \<and> (\<forall>i < unat (numVbuckets q). \<forall>j < unat (numVbuckets q). i \<noteq> j \<longrightarrow> cells (G i) \<inter> cells (G j) = {})"

section \<open>The stream-control sender (kvSender)\<close>

text \<open>
  A Go \<^verbatim>\<open>error\<close> of this part is \<open>None\<close> (nil) or an error value. The code tells errors apart
  by their \<^verbatim>\<open>Error()\<close> text only, and only asks whether the text is that of
  \<^verbatim>\<open>projClient.ErrorTopicMissing\<close>; an error is therefore the topic-missing error or an
  error with some other text.
\<close>

datatype kverror = ErrorTopicMissing | ErrorOther string

text \<open>
  The messages written to the response channel. Their types are declared in another
  file of the package; the constructors and fields are the ones the sender fills in.
\<close>

datatype errCode = ERROR_KVSENDER_STREAM_REQUEST_ERROR
datatype errSeverity = FATAL

record Error =
  code :: errCode
  severity :: errSeverity
  cause :: kverror

type_synonym StreamId = nat

datatype 'nts Message =
    MsgSuccess
  | MsgError Error
  | MsgRollback StreamId string 'nts
  | MsgKVStreamRepair StreamId string

record IndexDefn =
  DefnId :: "64 word"
  Bucket :: string

record IndexInst =
  InstId :: "64 word"
  Defn :: IndexDefn

text \<open>
  The timestamps exchanged with the projectors (\<^verbatim>\<open>protobuf.TsVbuuid\<close> of the projector
  package) and their methods \<^verbatim>\<open>IsEmpty\<close>, \<^verbatim>\<open>GetBucket\<close>, \<^verbatim>\<open>Clone\<close>, \<^verbatim>\<open>Union\<close>, \<^verbatim>\<open>Len\<close> and
  \<^verbatim>\<open>ToTsVbuuid\<close> are defined in that package. The model takes the timestamp type
  \<open>'ts\<close>, the native timestamp type \<open>'nts\<close> and the methods as parameters; a
  \<^verbatim>\<open>*protobuf.TsVbuuid\<close> is an option, \<open>None\<close> being nil.
\<close>

record ('ts, 'nts) tsMethods =
  IsEmpty :: "'ts \<Rightarrow> bool"
  GetBucket :: "'ts \<Rightarrow> string"
  Clone :: "'ts \<Rightarrow> 'ts"
  Union :: "'ts \<Rightarrow> 'ts \<Rightarrow> 'ts"
  Len_ts :: "'ts \<Rightarrow> nat"
  ToTsVbuuid :: "'ts \<Rightarrow> int \<Rightarrow> 'nts"

record 'ts TopicResponse =
  ActiveTimestamps :: "'ts option list"
  RollbackTimestamps :: "'ts option list"

text \<open>
  \<^verbatim>\<open>execWithStopCh\<close> runs the request unless the stop channel has a message. What one
  iteration of a fan-out loop meets is therefore either \<open>Stopped\<close> (the request is not
  sent) or the value the request returns. The projectors are the environment of the
  sender: \<open>env r addr\<close> is what the iteration for address \<open>addr\<close> meets in attempt \<open>r\<close>.
\<close>

datatype 'a call = Stopped | Called 'a

text \<open>
  The results of the calls into the cluster-info cache, which an operation makes before
  its fan-out: an error or the value.
\<close>

record 'ts clusterInfo =
  getAllVbucketsInCluster :: "string \<Rightarrow> kverror + 32 word list"
  makeRestartTsForVbs :: "string \<Rightarrow> 32 word list \<Rightarrow> kverror + 'ts"
  getAllProjectorAddrs :: "kverror + string list"

definition MAX_KV_REQUEST_RETRY :: nat where
  "MAX_KV_REQUEST_RETRY = 3"

text \<open>
  Modelled from the spec: the retry helper (\<^verbatim>\<open>common.NewRetryHelper\<close> and its \<^verbatim>\<open>Run\<close>) is
  missing; it is defined in package \<^verbatim>\<open>common\<close>. The spec has the operation function attempted up to \<^verbatim>\<open>MAX_KV_REQUEST_RETRY\<close>
  times; an attempt that returns nil ends the run with nil, an attempt that returns an
  error is followed by the next attempt, and when the attempts are used up the last
  error is the result. The operation functions of the sender have the type
  \<^verbatim>\<open>func(r int, err error) error\<close>: an attempt is handed its number and the error of the
  attempt before it (nil for the first). The state \<open>s\<close> stands for the variables that the
  function closure captures and updates. The waiting between attempts is not modelled.
  \<open>Run\<close> returns the error, the captured variables and the number of attempts made.
\<close>

fun Run_loop :: "nat \<Rightarrow> nat \<Rightarrow> (nat \<Rightarrow> kverror option \<Rightarrow> 's \<Rightarrow> kverror option \<times> 's)
    \<Rightarrow> kverror option \<Rightarrow> 's \<Rightarrow> kverror option \<times> 's \<times> nat" where
  "Run_loop 0 r call err s = (err, s, r)"
| "Run_loop (Suc k) r call err s =
     (case call r err s of
        (None, s1) \<Rightarrow> (None, s1, Suc r)
      | (Some e, s1) \<Rightarrow> Run_loop k (Suc r) call (Some e) s1)"

definition Run :: "nat \<Rightarrow> (nat \<Rightarrow> kverror option \<Rightarrow> 's \<Rightarrow> kverror option \<times> 's) \<Rightarrow> 's
    \<Rightarrow> kverror option \<times> 's \<times> nat" where
  "Run maxRetries call s = Run_loop maxRetries 0 call None s"

definition fatal :: "kverror \<Rightarrow> 'nts Message" where
  "fatal e = MsgError \<lparr>code = ERROR_KVSENDER_STREAM_REQUEST_ERROR, severity = FATAL, cause = e\<rparr>"

subsection \<open>Opening a stream\<close>

definition updateActiveTsFromResponse :: "('ts, 'nts) tsMethods \<Rightarrow> string \<Rightarrow> 'ts option
    \<Rightarrow> 'ts TopicResponse \<Rightarrow> 'ts option" where
  "updateActiveTsFromResponse M bucket activeTs res =
     foldl (\<lambda>activeTs ts.
        case ts of
          None \<Rightarrow> activeTs
        | Some t \<Rightarrow>
            if \<not> IsEmpty M t \<and> GetBucket M t = bucket then
              (case activeTs of None \<Rightarrow> Some (Clone M t) | Some a \<Rightarrow> Some (Union M a t))
            else activeTs)
       activeTs (ActiveTimestamps res)"

definition updateRollbackTsFromResponse :: "('ts, 'nts) tsMethods \<Rightarrow> string \<Rightarrow> 'ts option
    \<Rightarrow> 'ts TopicResponse \<Rightarrow> 'ts option" where
  "updateRollbackTsFromResponse M bucket rollbackTs res =
     foldl (\<lambda>rollbackTs ts.
        case ts of
          None \<Rightarrow> rollbackTs
        | Some t \<Rightarrow>
            if \<not> IsEmpty M t \<and> GetBucket M t = bucket then
              (case rollbackTs of None \<Rightarrow> Some (Clone M t) | Some a \<Rightarrow> Some (Union M a t))
            else rollbackTs)
       rollbackTs (RollbackTimestamps res)"

text \<open>
  The operation function of \<^verbatim>\<open>openMutationStream\<close>. The closure variables \<^verbatim>\<open>activeTs\<close> and
  \<^verbatim>\<open>rollbackTs\<close> outlive the attempts; \<^verbatim>\<open>err\<close> is the parameter of the function. The first
  function is the body of the loop over the addresses, the second the whole attempt.
\<close>

record 'ts openVars =
  activeTs :: "'ts option"
  rollbackTs :: "'ts option"

definition openMutationStream_request :: "('ts, 'nts) tsMethods \<Rightarrow> string
    \<Rightarrow> ('ts TopicResponse \<times> kverror option) call
    \<Rightarrow> kverror option \<times> 'ts openVars \<Rightarrow> kverror option \<times> 'ts openVars" where
  "openMutationStream_request M bucket c st =
     (case st of (err, vars) \<Rightarrow>
        case c of
          Stopped \<Rightarrow> (err, vars)
        | Called (res, Some ret) \<Rightarrow> (Some ret, vars)
        | Called (res, None) \<Rightarrow>
            (err, vars\<lparr>activeTs := updateActiveTsFromResponse M bucket (activeTs vars) res,
                        rollbackTs := updateRollbackTsFromResponse M bucket (rollbackTs vars) res\<rparr>))"

definition openMutationStream_fn :: "('ts, 'nts) tsMethods \<Rightarrow> string \<Rightarrow> 32 word list \<Rightarrow> string list
    \<Rightarrow> (nat \<Rightarrow> string \<Rightarrow> ('ts TopicResponse \<times> kverror option) call)
    \<Rightarrow> nat \<Rightarrow> kverror option \<Rightarrow> 'ts openVars \<Rightarrow> kverror option \<times> 'ts openVars" where
  "openMutationStream_fn M bucket vbnos addrs env r err vars =
     (case foldl (\<lambda>st addr. openMutationStream_request M bucket (env r addr) st) (err, vars) addrs of
        (err1, vars1) \<Rightarrow>
          if rollbackTs vars1 \<noteq> None then (None, vars1)
          else if err1 \<noteq> None then (err1, vars1)
          else
            (let retry = (case activeTs vars1 of
                            None \<Rightarrow> True
                          | Some a \<Rightarrow> Len_ts M a \<noteq> length vbnos)
             in if retry then (Some (ErrorOther ''ErrPartialVbStart''), vars1) else (None, vars1)))"

text \<open>
  \<^verbatim>\<open>openMutationStream\<close>, with the message it writes to the response channel and the number
  of attempts it made. \<open>nvb\<close> is the configuration value \<^verbatim>\<open>k.config["numVbuckets"]\<close>.
\<close>

definition openMutationStream :: "('ts, 'nts) tsMethods \<Rightarrow> 'ts clusterInfo \<Rightarrow> int
    \<Rightarrow> (nat \<Rightarrow> string \<Rightarrow> ('ts TopicResponse \<times> kverror option) call)
    \<Rightarrow> StreamId \<Rightarrow> IndexInst list \<Rightarrow> 'nts Message \<times> nat" where
  "openMutationStream M k nvb env streamId indexInstList =
     (case indexInstList of
        [] \<Rightarrow> (MsgSuccess, 0)
      | inst # _ \<Rightarrow>
          let bucket = Bucket (Defn inst) in
          (case getAllVbucketsInCluster k bucket of
             Inl e \<Rightarrow> (fatal e, 0)
           | Inr vbnos \<Rightarrow>
               (case makeRestartTsForVbs k bucket vbnos of
                  Inl e \<Rightarrow> (fatal e, 0)
                | Inr restartTsList \<Rightarrow>
                    (case getAllProjectorAddrs k of
                       Inl e \<Rightarrow> (fatal e, 0)
                     | Inr addrs \<Rightarrow>
                         (case Run MAX_KV_REQUEST_RETRY
                                 (openMutationStream_fn M bucket vbnos addrs env)
                                 \<lparr>activeTs = None, rollbackTs = None\<rparr> of
                            (err, vars, attempts) \<Rightarrow>
                              (case rollbackTs vars of
                                 Some ts \<Rightarrow> (MsgRollback streamId bucket (ToTsVbuuid M ts nvb), attempts)
                               | None \<Rightarrow>
                                   (case err of
                                      Some e \<Rightarrow> (fatal e, attempts)
                                    | None \<Rightarrow> (MsgSuccess, attempts))))))))"

text \<open>
  What the claims about opening a stream speak of: in attempt \<open>r\<close> some projector answers
  without error and its answer carries a rollback timestamp that is not nil, not empty
  and of the bucket.
\<close>

definition contributesRollback :: "('ts, 'nts) tsMethods \<Rightarrow> string \<Rightarrow> string list
    \<Rightarrow> (string \<Rightarrow> ('ts TopicResponse \<times> kverror option) call) \<Rightarrow> bool" where
  "contributesRollback M bucket addrs answers \<longleftrightarrow>
     (\<exists>addr \<in> set addrs. \<exists>res. answers addr = Called (res, None)
        \<and> (\<exists>t. Some t \<in> set (RollbackTimestamps res) \<and> \<not> IsEmpty M t \<and> GetBucket M t = bucket))"

text \<open>
  The rollback timestamps that the answers of one attempt contribute, listed in the order
  of the projector addresses and, within an answer, in the order of the answer: the
  timestamps of the answers without error that are not nil, not empty and of the bucket.
  The unioned rollback timestamp of the attempt is the copy of the first of them united
  with each of the others in turn.
\<close>

definition responseContributions :: "('ts, 'nts) tsMethods \<Rightarrow> string \<Rightarrow> 'ts TopicResponse \<Rightarrow> 'ts list" where
  "responseContributions M bucket res =
     filter (\<lambda>t. \<not> IsEmpty M t \<and> GetBucket M t = bucket)
       (concat (map (\<lambda>ts. case ts of None \<Rightarrow> [] | Some t \<Rightarrow> [t]) (RollbackTimestamps res)))"

definition rollbackContributions :: "('ts, 'nts) tsMethods \<Rightarrow> string \<Rightarrow> string list
    \<Rightarrow> (string \<Rightarrow> ('ts TopicResponse \<times> kverror option) call) \<Rightarrow> 'ts list" where
  "rollbackContributions M bucket addrs answers =
     concat (map (\<lambda>addr.
        case answers addr of
          Called (res, None) \<Rightarrow> responseContributions M bucket res
        | _ \<Rightarrow> []) addrs)"

subsection \<open>Adding and removing indexes, removing a bucket, closing a stream\<close>

text \<open>
  In these operations the closure captures no variable that it updates, so the state of
  the run is the unit value. Each operation is given with its operation function.
\<close>

definition addIndexForExistingBucket_fn :: "string list \<Rightarrow> (nat \<Rightarrow> string \<Rightarrow> kverror option call)
    \<Rightarrow> nat \<Rightarrow> kverror option \<Rightarrow> unit \<Rightarrow> kverror option \<times> unit" where
  "addIndexForExistingBucket_fn addrs env r err u =
     (foldl (\<lambda>err addr.
        case env r addr of
          Stopped \<Rightarrow> err
        | Called None \<Rightarrow> err
        | Called (Some ret) \<Rightarrow> Some ret)
       err addrs, u)"

definition addIndexForExistingBucket :: "'ts clusterInfo \<Rightarrow> (nat \<Rightarrow> string \<Rightarrow> kverror option call)
    \<Rightarrow> StreamId \<Rightarrow> IndexInst list \<Rightarrow> 'nts Message" where
  "addIndexForExistingBucket k env streamId indexInstList =
     (case getAllProjectorAddrs k of
        Inl e \<Rightarrow> fatal e
      | Inr addrs \<Rightarrow>
          (case Run MAX_KV_REQUEST_RETRY (addIndexForExistingBucket_fn addrs env) () of
             (Some e, u, attempts) \<Rightarrow> fatal e
           | (None, u, attempts) \<Rightarrow> MsgSuccess))"

definition deleteIndexesFromStream_fn :: "string list \<Rightarrow> (nat \<Rightarrow> string \<Rightarrow> kverror option call)
    \<Rightarrow> nat \<Rightarrow> kverror option \<Rightarrow> unit \<Rightarrow> kverror option \<times> unit" where
  "deleteIndexesFromStream_fn addrs env r err u =
     (foldl (\<lambda>err addr.
        case env r addr of
          Stopped \<Rightarrow> err
        | Called None \<Rightarrow> err
        | Called (Some ret) \<Rightarrow> if ret = ErrorTopicMissing then err else Some ret)
       err addrs, u)"

definition deleteIndexesFromStream :: "'ts clusterInfo \<Rightarrow> (nat \<Rightarrow> string \<Rightarrow> kverror option call)
    \<Rightarrow> StreamId \<Rightarrow> IndexInst list \<Rightarrow> 'nts Message" where
  "deleteIndexesFromStream k env streamId indexInstList =
     (case getAllProjectorAddrs k of
        Inl e \<Rightarrow> fatal e
      | Inr addrs \<Rightarrow>
          (case Run MAX_KV_REQUEST_RETRY (deleteIndexesFromStream_fn addrs env) () of
             (Some e, u, attempts) \<Rightarrow> fatal e
           | (None, u, attempts) \<Rightarrow> MsgSuccess))"

definition deleteBucketsFromStream_fn :: "string list \<Rightarrow> (nat \<Rightarrow> string \<Rightarrow> kverror option call)
    \<Rightarrow> nat \<Rightarrow> kverror option \<Rightarrow> unit \<Rightarrow> kverror option \<times> unit" where
  "deleteBucketsFromStream_fn addrs env r err u =
     (foldl (\<lambda>err addr.
        case env r addr of
          Stopped \<Rightarrow> err
        | Called None \<Rightarrow> err
        | Called (Some ret) \<Rightarrow> if ret = ErrorTopicMissing then err else Some ret)
       err addrs, u)"

definition deleteBucketsFromStream :: "'ts clusterInfo \<Rightarrow> (nat \<Rightarrow> string \<Rightarrow> kverror option call)
    \<Rightarrow> StreamId \<Rightarrow> string list \<Rightarrow> 'nts Message" where
  "deleteBucketsFromStream k env streamId buckets =
     (case getAllProjectorAddrs k of
        Inl e \<Rightarrow> fatal e
      | Inr addrs \<Rightarrow>
          (case Run MAX_KV_REQUEST_RETRY (deleteBucketsFromStream_fn addrs env) () of
             (Some e, u, attempts) \<Rightarrow> fatal e
           | (None, u, attempts) \<Rightarrow> MsgSuccess))"

definition closeMutationStream_fn :: "string list \<Rightarrow> (nat \<Rightarrow> string \<Rightarrow> kverror option call)
    \<Rightarrow> nat \<Rightarrow> kverror option \<Rightarrow> unit \<Rightarrow> kverror option \<times> unit" where
  "closeMutationStream_fn addrs env r err u =
     (foldl (\<lambda>err addr.
        case env r addr of
          Stopped \<Rightarrow> err
        | Called None \<Rightarrow> err
        | Called (Some ret) \<Rightarrow> if ret = ErrorTopicMissing then err else Some ret)
       err addrs, u)"

definition closeMutationStream :: "'ts clusterInfo \<Rightarrow> (nat \<Rightarrow> string \<Rightarrow> kverror option call)
    \<Rightarrow> StreamId \<Rightarrow> 'nts Message" where
  "closeMutationStream k env streamId =
     (case getAllProjectorAddrs k of
        Inl e \<Rightarrow> fatal e
      | Inr addrs \<Rightarrow>
          (case Run MAX_KV_REQUEST_RETRY (closeMutationStream_fn addrs env) () of
             (Some e, u, attempts) \<Rightarrow> fatal e
           | (None, u, attempts) \<Rightarrow> MsgSuccess))"

subsection \<open>Example projectors\<close>

text \<open>
  Modelled from the spec: the timestamp type of the projector package is missing. A
  timestamp of a bucket holds, per shard, a sequence number
  (the other components play no role here); two timestamps of a bucket are combined by
  taking, per shard, the entry with the higher sequence number. These timestamps
  instantiate the parameters of the model in the examples.
\<close>

type_synonym simpleTs = "string \<times> (nat \<times> nat) list"

definition simple_Union :: "simpleTs \<Rightarrow> simpleTs \<Rightarrow> simpleTs" where
  "simple_Union a b =
     (fst a,
      map (\<lambda>(v, s). (v, case map_of (snd b) v of None \<Rightarrow> s | Some s' \<Rightarrow> max s s')) (snd a)
      @ filter (\<lambda>(v, s). map_of (snd a) v = None) (snd b))"

definition simpleMethods :: "(simpleTs, simpleTs) tsMethods" where
  "simpleMethods =
     \<lparr>IsEmpty = (\<lambda>t. snd t = []), GetBucket = fst, Clone = (\<lambda>t. t), Union = simple_Union,
      Len_ts = (\<lambda>t. length (snd t)), ToTsVbuuid = (\<lambda>t n. t)\<rparr>"

text \<open>
  A cluster with two vbuckets and three projectors, and an index on bucket \<open>default\<close>.
\<close>

definition cluster3 :: "simpleTs clusterInfo" where
  "cluster3 =
     \<lparr>getAllVbucketsInCluster = (\<lambda>b. Inr [0, 1]),
      makeRestartTsForVbs = (\<lambda>b vbnos. Inr (b, [])),
      getAllProjectorAddrs = Inr [''p1'', ''p2'', ''p3'']\<rparr>"

definition inst1 :: IndexInst where
  "inst1 = \<lparr>InstId = 1, Defn = \<lparr>DefnId = 1, Bucket = ''default''\<rparr>\<rparr>"

text \<open>
  In every attempt projector p1 reports vbucket 0 active and a rollback of vbucket 1 to
  sequence number 2, p2 fails with a transient error, and p3 answers with four rollback
  timestamps: a nil pointer, one of another bucket, an empty one and one of the bucket,
  with vbucket 0 at sequence number 4 and vbucket 1 at sequence number 3.
\<close>

definition env_rollback :: "nat \<Rightarrow> string \<Rightarrow> (simpleTs TopicResponse \<times> kverror option) call" where
  "env_rollback r addr =
     (if addr = ''p1'' then
        Called (\<lparr>ActiveTimestamps = [Some (''default'', [(0, 5)])],
                 RollbackTimestamps = [Some (''default'', [(1, 2)])]\<rparr>, None)
      else if addr = ''p2'' then
        Called (\<lparr>ActiveTimestamps = [], RollbackTimestamps = []\<rparr>, Some (ErrorOther ''connection refused''))
      else
        Called (\<lparr>ActiveTimestamps = [],
                 RollbackTimestamps = [None, Some (''other'', [(1, 9)]), Some (''default'', []),
                                       Some (''default'', [(0, 4), (1, 3)])]\<rparr>, None))"

text \<open>
  In the first attempt projector p2 fails with a transient error and the others succeed;
  from the second attempt on p2 reports that the topic is missing and the others
  succeed.
\<close>

definition env_flaky :: "nat \<Rightarrow> string \<Rightarrow> kverror option call" where
  "env_flaky r addr =
     (if addr = ''p2'' then
        (if r = 0 then Called (Some (ErrorOther ''connection refused''))
         else Called (Some ErrorTopicMissing))
      else Called None)"

text \<open>In every attempt projector p2 reports that the topic is missing, the others succeed.\<close>

definition env_missing :: "nat \<Rightarrow> string \<Rightarrow> kverror option call" where
  "env_missing r addr = (if addr = ''p2'' then Called (Some ErrorTopicMissing) else Called None)"

section \<open>Properties of the snapshot ledger\<close>

lemma RemoveRecentThanTS_loop_none:
  "\<forall>e \<in> set rest. \<not> gt (snapTs e) ts \<Longrightarrow>
   RemoveRecentThanTS_loop gt snapTs ts passed rest = passed @ rest"
  by (induction rest arbitrary: passed) simp_all

lemma RemoveRecentThanTS_loop_first:
  "\<forall>e \<in> set pre. \<not> gt (snapTs e) ts \<Longrightarrow> gt (snapTs x) ts \<Longrightarrow>
   RemoveRecentThanTS_loop gt snapTs ts passed (pre @ x # post) = passed @ pre @ post"
  by (induction pre arbitrary: passed) simp_all

text \<open>
  C10. \<^verbatim>\<open>RemoveOldest\<close> on an empty ledger returns nil and leaves the ledger empty; it returns
  a nil error in every ledger state; on a non-empty ledger it removes the back (oldest)
  entry and nothing else: the ledger \<open>sc @ [e]\<close> becomes \<open>sc\<close>.
\<close>

theorem RemoveOldest_spec:
  "RemoveOldest ([] :: 's snapshotInfoContainer) = ([], None)
   \<and> snd (RemoveOldest (sc :: 's snapshotInfoContainer)) = None
   \<and> RemoveOldest (sc @ [e]) = (sc, None)
   \<and> Len (fst (RemoveOldest (sc @ [e]))) + 1 = Len (sc @ [e])"
  by (simp add: RemoveOldest_def Len_def split: list.split)

text \<open>
  C5. On the ledger holding S3, S2, S1 (newest first, timestamps 3, 2, 1)
  \<^verbatim>\<open>GetOlderThanTS\<close> with target timestamp 2 returns nil: the front entry S3 does not
  qualify and the loop is left by \<^verbatim>\<open>break\<close>, although S2 qualifies.
\<close>

theorem GetOlderThanTS_front_only:
  "GetOlderThanTS (\<ge>) snd ledger321 2 = None
   \<and> GetEqualToTS (=) snd ledger321 2 = Some (''S2'', 2)"
  by (simp add: ledger321_def Add_def NewSnapshotInfoContainer_def)

lemmas list_eval = elements321_def list_New_def list_PushFront_def list_insert_def list_Front_def
  list_Next_def list_Remove_def list_remove_def Let_def RemoveRecentThanTS_elements.simps

lemma elements321_values:
  "list_values (len elements321) (list_Front elements321) elements321
   = [Some (''S3'', 3), Some (''S2'', 2), Some (''S1'', 1)]"
  by (simp add: list_eval numeral_3_eq_3)

text \<open>
  C6. On the ledger holding S3, S2, S1 (timestamps 3, 2, 1) \<^verbatim>\<open>RemoveRecentThanTS\<close> with
  target timestamp 1 removes S3 only: S2, which is newer than the target, stays. The loop
  run on the linked elements of \<^verbatim>\<open>container/list\<close> leaves the same list.
\<close>

theorem RemoveRecentThanTS_removes_one:
  "RemoveRecentThanTS (>) snd ledger321 1 = ([(''S2'', 2), (''S1'', 1)], None)
   \<and> map_option (\<lambda>l. list_values (len l) (list_Front l) l)
        (RemoveRecentThanTS_elements (>) snd 1 (list_Front elements321) elements321)
      = Some [Some (''S2'', 2), Some (''S1'', 1)]"
  by (simp add: ledger321_def Add_def NewSnapshotInfoContainer_def RemoveRecentThanTS_def
      list_eval numeral_2_eq_2)

section \<open>Properties of the mutation queue\<close>

subsection \<open>The queue states represent lists of mutations\<close>

lemma path_upd: "u \<notin> set as \<Longrightarrow> path (nx(u := v)) p as r = path nx p as r"
  by (induction as arbitrary: p) auto

lemma path_append: "path nx p (as @ bs) r = (\<exists>m. path nx p as m \<and> path nx m bs r)"
  by (induction as arbitrary: p) auto

lemma path_loop_Nil: "path nx (Some t) ds (Some t) \<Longrightarrow> distinct (ds @ [t]) \<Longrightarrow> ds = []"
  by (cases ds) auto

lemma heap_upd_nxt: "(\<lambda>a. f ((h(n := v)) a)) = (\<lambda>a. f (h a))(n := f v)"
  by auto

lemma rep_New: "rep_with (NewAtomicMutationQueue n) (\<lambda>i. ([], [], i)) (\<lambda>i. []) (\<lambda>i. None)"
  by (auto simp: rep_with_def NewAtomicMutationQueue_def shard_rep_def cells_def zero_node_def)

lemma valid_not_out_of_range:
  assumes "unat (vb :: Vbucket) < unat (n :: 16 word)"
  shows "\<not> vb > ucast n - 1"
proof -
  have u: "unat (ucast n :: Vbucket) = unat n"
  proof -
    have "unat n < 2 ^ LENGTH(16)" by (rule unsigned_less)
    then show ?thesis by (simp add: unsigned_ucast_eq take_bit_nat_eq_self_iff)
  qed
  then have "(ucast n :: Vbucket) \<noteq> 0"
    using assms by (metis not_less_zero unat_0)
  then have "unat ((ucast n :: Vbucket) - 1) = unat n - 1"
    using u by (simp add: unat_minus_one)
  then have "vb \<le> ucast n - 1"
    using assms by (simp add: word_le_nat_alt)
  then show ?thesis by simp
qed


lemma path_cong: "(\<forall>a \<in> set as. nx a = nx' a) \<Longrightarrow> path nx p as r = path nx' p as r"
  by (induction as arbitrary: p) auto

lemma shard_rep_frame:
  assumes "shard_rep q j g xs l"
    and "\<forall>a \<in> cells g. heap q' a = heap q a"
    and "free q' ! j = free q ! j" and "head q' ! j = head q ! j"
    and "tail q' ! j = tail q ! j" and "size_q q' ! j = size_q q ! j"
    and "brk q \<le> brk q'"
  shows "shard_rep q' j g xs l"
proof -
  obtain fs ds t where g: "g = (fs, ds, t)" by (cases g)
  have h: "\<forall>a \<in> set (fs @ ds @ [t]). heap q' a = heap q a"
    using assms(2) by (simp add: g cells_def)
  have p1: "path (\<lambda>a. nxt (heap q' a)) p fs r = path (\<lambda>a. nxt (heap q a)) p fs r" for p r
    by (rule path_cong) (use h in auto)
  have p2: "path (\<lambda>a. nxt (heap q' a)) p ds r = path (\<lambda>a. nxt (heap q a)) p ds r" for p r
    by (rule path_cong) (use h in auto)
  have m: "map (\<lambda>a. mutation (heap q' a)) (tl (ds @ [t])) = map (\<lambda>a. mutation (heap q a)) (tl (ds @ [t]))"
    using h by (cases ds) auto
  have hd: "heap q' (hd (ds @ [t])) = heap q (hd (ds @ [t]))"
    using h by (cases ds) auto
  show ?thesis
    using assms(1) assms(3-7) unfolding shard_rep_def g
    by (fastforce simp: p1 p2 m hd)
qed

lemma node_upd_all: "r\<lparr>mutation := m, nxt := n\<rparr> = \<lparr>mutation = m, nxt = n\<rparr>"
  by (cases r) simp

lemma Enqueue_pop:
  assumes "unat vb < unat (numVbuckets q)"
    and "length (head q) = unat (numVbuckets q)" and "length (tail q) = unat (numVbuckets q)"
    and "length (free q) = unat (numVbuckets q)" and "length (size_q q) = unat (numVbuckets q)"
    and "free q ! unat vb = Some f" and "head q ! unat vb \<noteq> Some f"
    and "tail q ! unat vb = Some t" and "t \<noteq> f"
  shows "Enqueue m vb q = Inr (q\<lparr>
      free := list_update (free q) (unat vb) (nxt (heap q f)),
      heap := (heap q)(f := \<lparr>mutation = m, nxt = None\<rparr>, t := (heap q t)\<lparr>nxt := Some f\<rparr>),
      tail := list_update (tail q) (unat vb) (Some f),
      size_q := list_update (size_q q) (unat vb) (size_q q ! unat vb + 1)\<rparr>)"
  using assms valid_not_out_of_range [of vb "numVbuckets q"]
  by (simp add: Enqueue_def allocNode_def popFreeList_def Let_def node_upd_all fun_upd_twist [of t f])

lemma Enqueue_fresh:
  assumes "unat vb < unat (numVbuckets q)"
    and "length (head q) = unat (numVbuckets q)" and "length (tail q) = unat (numVbuckets q)"
    and "length (free q) = unat (numVbuckets q)" and "length (size_q q) = unat (numVbuckets q)"
    and "free q ! unat vb = head q ! unat vb"
    and "tail q ! unat vb = Some t" and "t \<noteq> brk q"
  shows "Enqueue m vb q = Inr (q\<lparr>
      heap := (heap q)(brk q := \<lparr>mutation = m, nxt = None\<rparr>, t := (heap q t)\<lparr>nxt := Some (brk q)\<rparr>),
      brk := Suc (brk q),
      tail := list_update (tail q) (unat vb) (Some (brk q)),
      size_q := list_update (size_q q) (unat vb) (size_q q ! unat vb + 1)\<rparr>)"
  using assms valid_not_out_of_range [of vb "numVbuckets q"]
  by (simp add: Enqueue_def allocNode_def popFreeList_def Let_def zero_node_def node_upd_all fun_upd_twist [of t "brk q"])


lemma path_head_eq:
  "path nx p ds (Some t) \<Longrightarrow> p = Some (hd (ds @ [t]))"
  by (cases ds) auto

lemma rep_with_pop:
  assumes r: "rep_with q G A L" and v: "v < unat (numVbuckets q)"
    and g: "G v = (f # fs, ds, t)"
    and q': "q' = q\<lparr>
      free := list_update (free q) v (nxt (heap q f)),
      heap := (heap q)(f := \<lparr>mutation = m, nxt = None\<rparr>, t := (heap q t)\<lparr>nxt := Some f\<rparr>),
      tail := list_update (tail q) v (Some f),
      size_q := list_update (size_q q) v (size_q q ! v + 1)\<rparr>"
  shows "rep_with q' (G(v := (fs, ds @ [t], f))) (A(v := A v @ [m])) L"
proof -
  have len: "length (head q) = unat (numVbuckets q)" "length (tail q) = unat (numVbuckets q)"
    "length (free q) = unat (numVbuckets q)" "length (size_q q) = unat (numVbuckets q)"
    using r by (simp_all add: rep_with_def)
  have sr: "shard_rep q v (f # fs, ds, t) (A v) (L v)"
    using r v g by (auto simp: rep_with_def)
  have dist: "distinct (f # fs @ ds @ [t])" and tf: "t \<noteq> f"
    using sr by (auto simp: shard_rep_def)
  have hp: "\<And>a. heap q' a = (if a = t then (heap q t)\<lparr>nxt := Some f\<rparr>
              else if a = f then \<lparr>mutation = m, nxt = None\<rparr> else heap q a)"
    by (simp add: q')
  have mut: "\<And>a. a \<noteq> f \<Longrightarrow> mutation (heap q' a) = mutation (heap q a)"
    by (simp add: hp)
  have nx: "\<And>a. a \<noteq> f \<Longrightarrow> a \<noteq> t \<Longrightarrow> nxt (heap q' a) = nxt (heap q a)"
    by (simp add: hp)
  have pfs: "path (\<lambda>a. nxt (heap q' a)) p fs r' = path (\<lambda>a. nxt (heap q a)) p fs r'" for p r'
    by (rule path_cong) (use dist nx in fastforce)
  have pds: "path (\<lambda>a. nxt (heap q' a)) p ds r' = path (\<lambda>a. nxt (heap q a)) p ds r'" for p r'
    by (rule path_cong) (use dist nx in fastforce)
  have mp: "map (\<lambda>a. mutation (heap q' a)) (tl (ds @ [t])) = map (\<lambda>a. mutation (heap q a)) (tl (ds @ [t]))"
  proof (rule map_cong [OF refl])
    fix a assume "a \<in> set (tl (ds @ [t]))"
    then have "a \<in> set (ds @ [t])" by (rule list.set_sel(2) [rotated]) simp
    then have "a \<noteq> f" using dist by auto
    then show "mutation (heap q' a) = mutation (heap q a)" by (rule mut)
  qed
  have hdne: "hd (ds @ [t]) \<noteq> f"
    using dist by (cases ds) auto
  have tls: "tl ((ds @ [t]) @ [f]) = tl (ds @ [t]) @ [f]" "hd ((ds @ [t]) @ [f]) = hd (ds @ [t])"
    by (cases ds; simp)+
  have own: "shard_rep q' v (fs, ds @ [t], f) (A v @ [m]) (L v)"
    using sr v len dist unfolding shard_rep_def
    apply (simp only: prod.case tls)
    apply (simp add: pfs pds path_append mut hdne mp)
    apply (simp add: q')
    done
  have others: "shard_rep q' i (G i) (A i) (L i)" if "i < unat (numVbuckets q)" "i \<noteq> v" for i
  proof (rule shard_rep_frame)
    show "shard_rep q i (G i) (A i) (L i)" using r that by (simp add: rep_with_def)
    have "cells (G i) \<inter> cells (G v) = {}" using r that v by (simp add: rep_with_def)
    then show "\<forall>a\<in>cells (G i). heap q' a = heap q a"
      by (auto simp: g cells_def hp)
  qed (use that in \<open>simp_all add: q'\<close>)
  have cl: "cells (fs, ds @ [t], f) = cells (G v)" by (auto simp: g cells_def)
  show ?thesis
    unfolding rep_with_def
    using r own others cl by (auto simp: q' len rep_with_def)
qed


lemma rep_with_fresh:
  assumes r: "rep_with q G A L" and v: "v < unat (numVbuckets q)"
    and g: "G v = (fs, ds, t)"
    and q': "q' = q\<lparr>
      heap := (heap q)(brk q := \<lparr>mutation = m, nxt = None\<rparr>, t := (heap q t)\<lparr>nxt := Some (brk q)\<rparr>),
      brk := Suc (brk q),
      tail := list_update (tail q) v (Some (brk q)),
      size_q := list_update (size_q q) v (size_q q ! v + 1)\<rparr>"
  shows "rep_with q' (G(v := (fs, ds @ [t], brk q))) (A(v := A v @ [m])) L"
proof -
  define f where "f = brk q"
  have len: "length (head q) = unat (numVbuckets q)" "length (tail q) = unat (numVbuckets q)"
    "length (free q) = unat (numVbuckets q)" "length (size_q q) = unat (numVbuckets q)"
    using r by (simp_all add: rep_with_def)
  have sr: "shard_rep q v (fs, ds, t) (A v) (L v)"
    using r v g by (auto simp: rep_with_def)
  have below: "\<forall>a \<in> set (fs @ ds @ [t]). a < f"
    using sr by (auto simp: shard_rep_def f_def)
  have dist: "distinct (f # fs @ ds @ [t])" and tf: "t \<noteq> f"
    using sr below by (auto simp: shard_rep_def)
  have hp: "\<And>a. heap q' a = (if a = t then (heap q t)\<lparr>nxt := Some f\<rparr>
              else if a = f then \<lparr>mutation = m, nxt = None\<rparr> else heap q a)"
    by (simp add: q' f_def)
  have mut: "\<And>a. a \<noteq> f \<Longrightarrow> mutation (heap q' a) = mutation (heap q a)"
    by (simp add: hp)
  have nx: "\<And>a. a \<noteq> f \<Longrightarrow> a \<noteq> t \<Longrightarrow> nxt (heap q' a) = nxt (heap q a)"
    by (simp add: hp)
  have pfs: "path (\<lambda>a. nxt (heap q' a)) p fs r' = path (\<lambda>a. nxt (heap q a)) p fs r'" for p r'
    by (rule path_cong) (use dist nx in fastforce)
  have pds: "path (\<lambda>a. nxt (heap q' a)) p ds r' = path (\<lambda>a. nxt (heap q a)) p ds r'" for p r'
    by (rule path_cong) (use dist nx in fastforce)
  have mp: "map (\<lambda>a. mutation (heap q' a)) (tl (ds @ [t])) = map (\<lambda>a. mutation (heap q a)) (tl (ds @ [t]))"
  proof (rule map_cong [OF refl])
    fix a assume "a \<in> set (tl (ds @ [t]))"
    then have "a \<in> set (ds @ [t])" by (rule list.set_sel(2) [rotated]) simp
    then have "a \<noteq> f" using dist by auto
    then show "mutation (heap q' a) = mutation (heap q a)" by (rule mut)
  qed
  have hdne: "hd (ds @ [t]) \<noteq> f"
    using dist by (cases ds) auto
  have tls: "tl ((ds @ [t]) @ [f]) = tl (ds @ [t]) @ [f]" "hd ((ds @ [t]) @ [f]) = hd (ds @ [t])"
    by (cases ds; simp)+
  have bq: "brk q' = Suc f" by (simp add: q' f_def)
  have own: "shard_rep q' v (fs, ds @ [t], f) (A v @ [m]) (L v)"
    using sr v len dist below unfolding shard_rep_def
    apply (simp only: prod.case tls)
    apply (simp add: pfs pds path_append mut hdne mp bq)
    apply (simp add: q' f_def)
    apply (auto simp: less_Suc_eq)
    done
  have others: "shard_rep q' i (G i) (A i) (L i)" if "i < unat (numVbuckets q)" "i \<noteq> v" for i
  proof (rule shard_rep_frame)
    show sri: "shard_rep q i (G i) (A i) (L i)" using r that by (simp add: rep_with_def)
    have "cells (G i) \<inter> cells (G v) = {}" using r that v by (simp add: rep_with_def)
    moreover have "f \<notin> cells (G i)"
      using sri by (cases "G i") (auto simp: shard_rep_def cells_def f_def)
    ultimately show "\<forall>a\<in>cells (G i). heap q' a = heap q a"
      by (auto simp: g cells_def hp)
  qed (use that in \<open>simp_all add: q'\<close>)
  have fresh: "f \<notin> cells (G i)" if "i < unat (numVbuckets q)" for i
  proof -
    have "shard_rep q i (G i) (A i) (L i)" using r that by (simp add: rep_with_def)
    then show ?thesis by (cases "G i") (auto simp: shard_rep_def cells_def f_def)
  qed
  have cl: "cells (fs, ds @ [t], f) = insert f (cells (G v))" by (auto simp: g cells_def)
  show ?thesis
    unfolding rep_with_def f_def [symmetric]
    using r own others cl fresh by (auto simp: q' len rep_with_def)
qed

lemma Enqueue_rep:
  assumes r: "rep_with q G A L" and v: "unat vb < unat (numVbuckets q)"
  shows "\<exists>q' G'. Enqueue m vb q = Inr q' \<and> numVbuckets q' = numVbuckets q
            \<and> rep_with q' G' (A(unat vb := A (unat vb) @ [m])) L"
proof -
  obtain fs ds t where g: "G (unat vb) = (fs, ds, t)" by (cases "G (unat vb)")
  have len: "length (head q) = unat (numVbuckets q)" "length (tail q) = unat (numVbuckets q)"
    "length (free q) = unat (numVbuckets q)" "length (size_q q) = unat (numVbuckets q)"
    using r by (simp_all add: rep_with_def)
  have sr: "shard_rep q (unat vb) (fs, ds, t) (A (unat vb)) (L (unat vb))"
    using r v g by (auto simp: rep_with_def)
  then have pf: "path (\<lambda>a. nxt (heap q a)) (free q ! unat vb) fs (head q ! unat vb)"
    and pd: "path (\<lambda>a. nxt (heap q a)) (head q ! unat vb) ds (Some t)"
    and tl: "tail q ! unat vb = Some t"
    and dist: "distinct (fs @ ds @ [t])"
    and below: "\<forall>a \<in> set (fs @ ds @ [t]). a < brk q"
    by (simp_all add: shard_rep_def)
  have hd: "head q ! unat vb = Some (hd (ds @ [t]))"
    using pd by (rule path_head_eq)
  show ?thesis
  proof (cases "free q ! unat vb = head q ! unat vb")
    case True
    have "t \<noteq> brk q" using below by auto
    from Enqueue_fresh [OF v len True tl this, of m] rep_with_fresh [OF r v g refl, of m]
    show ?thesis by auto
  next
    case False
    then obtain f fs' where fs: "fs = f # fs'" and fr: "free q ! unat vb = Some f"
      using pf by (cases fs) auto
    have "hd (ds @ [t]) \<noteq> f" using dist fs by (cases ds) auto
    then have hf: "head q ! unat vb \<noteq> Some f" using hd by simp
    have tf: "t \<noteq> f" using dist fs by auto
    from Enqueue_pop [OF v len fr hf tl tf, of m] rep_with_pop [OF r v g [unfolded fs] refl, of m]
    show ?thesis by auto
  qed
qed


lemma shard_rep_length: "shard_rep q i (fs, ds, t) xs l \<Longrightarrow> length xs = length ds"
  by (simp add: shard_rep_def)

lemma shard_rep_empty_iff:
  assumes "shard_rep q i (fs, ds, t) xs l"
  shows "(head q ! i = tail q ! i) = (xs = [])"
proof -
  have pd: "path (\<lambda>a. nxt (heap q a)) (head q ! i) ds (Some t)"
    and tl: "tail q ! i = Some t" and dist: "distinct (ds @ [t])"
    using assms by (simp_all add: shard_rep_def)
  have "(head q ! i = tail q ! i) = (ds = [])"
    using pd tl dist path_loop_Nil [of "\<lambda>a. nxt (heap q a)" t ds] by auto
  then show ?thesis using shard_rep_length [OF assms] by auto
qed

lemma rep_with_empty_iff:
  assumes "rep_with q G A L" and "i < unat (numVbuckets q)"
  shows "(head q ! i = tail q ! i) = (A i = [])"
proof -
  obtain fs ds t where "G i = (fs, ds, t)" by (cases "G i")
  then have "shard_rep q i (fs, ds, t) (A i) (L i)"
    using assms by (auto simp: rep_with_def)
  then show ?thesis by (rule shard_rep_empty_iff)
qed

lemma rep_with_advance:
  assumes r: "rep_with q G A L" and v: "v < unat (numVbuckets q)"
    and g: "G v = (fs, h # ds, t)"
    and q': "q' = q\<lparr>head := list_update (head q) v (nxt (heap q h)),
                    size_q := list_update (size_q q) v (size_q q ! v - 1)\<rparr>"
  shows "rep_with q' (G(v := (fs @ [h], ds, t))) (A(v := tl (A v))) (L(v := hd (A v)))
       \<and> nxt (heap q h) = Some (hd (ds @ [t])) \<and> hd (A v) = mutation (heap q (hd (ds @ [t])))
       \<and> head q ! v = Some h"
proof -
  have len: "length (head q) = unat (numVbuckets q)" "length (tail q) = unat (numVbuckets q)"
    "length (free q) = unat (numVbuckets q)" "length (size_q q) = unat (numVbuckets q)"
    using r by (simp_all add: rep_with_def)
  have sr: "shard_rep q v (fs, h # ds, t) (A v) (L v)"
    using r v g by (auto simp: rep_with_def)
  then have hd: "head q ! v = Some h" and pd: "path (\<lambda>a. nxt (heap q a)) (nxt (heap q h)) ds (Some t)"
    by (simp_all add: shard_rep_def)
  have nh: "nxt (heap q h) = Some (hd (ds @ [t]))"
    using pd by (rule path_head_eq)
  have av: "A v = map (\<lambda>a. mutation (heap q a)) (ds @ [t])"
    using sr by (simp add: shard_rep_def)
  then have hdA: "hd (A v) = mutation (heap q (hd (ds @ [t])))"
    by (cases ds) auto
  have tlA: "tl (A v) = map (\<lambda>a. mutation (heap q a)) (tl (ds @ [t]))"
    using av by (simp add: map_tl)
  have own: "shard_rep q' v (fs @ [h], ds, t) (tl (A v)) (hd (A v))"
    using sr v len unfolding shard_rep_def
    apply (simp only: prod.case)
    apply (simp add: q' path_append hdA tlA)
    apply (use pd nh in auto)
     apply (cases ds; simp)+
    done
  have others: "shard_rep q' i (G i) (A i) (L i)" if "i < unat (numVbuckets q)" "i \<noteq> v" for i
  proof (rule shard_rep_frame)
    show "shard_rep q i (G i) (A i) (L i)" using r that by (simp add: rep_with_def)
  qed (use that in \<open>simp_all add: q'\<close>)
  have cl: "cells (fs @ [h], ds, t) = cells (G v)" by (auto simp: g cells_def)
  have "rep_with q' (G(v := (fs @ [h], ds, t))) (A(v := tl (A v))) (L(v := hd (A v)))"
    unfolding rep_with_def
    using r own others cl by (auto simp: q' len rep_with_def)
  then show ?thesis using nh hdA hd by simp
qed

lemma Dequeue_rep:
  assumes r: "rep_with q G A L" and v: "unat vb < unat (numVbuckets q)"
  shows "\<exists>q' G' L'. DequeueSingleElement vb q = Inr (if A (unat vb) = [] then None else hd (A (unat vb)), q')
            \<and> numVbuckets q' = numVbuckets q
            \<and> rep_with q' G' (A(unat vb := tl (A (unat vb)))) L'
            \<and> (A (unat vb) = [] \<longrightarrow> q' = q)
            \<and> L' = (if A (unat vb) = [] then L else L(unat vb := hd (A (unat vb))))"
proof (cases "A (unat vb) = []")
  case True
  have len: "length (head q) = unat (numVbuckets q)" "length (tail q) = unat (numVbuckets q)"
    "length (free q) = unat (numVbuckets q)" "length (size_q q) = unat (numVbuckets q)"
    using r by (simp_all add: rep_with_def)
  have "head q ! unat vb = tail q ! unat vb"
    using rep_with_empty_iff [OF r v] True by simp
  then have "DequeueSingleElement vb q = Inr (None, q)"
    using v len by (simp add: DequeueSingleElement_def)
  moreover have "A(unat vb := tl (A (unat vb))) = A" using True by auto
  ultimately show ?thesis using True r by auto
next
  case False
  have len: "length (head q) = unat (numVbuckets q)" "length (tail q) = unat (numVbuckets q)"
    "length (free q) = unat (numVbuckets q)" "length (size_q q) = unat (numVbuckets q)"
    using r by (simp_all add: rep_with_def)
  obtain fs ds t where g: "G (unat vb) = (fs, ds, t)" by (cases "G (unat vb)")
  have sr: "shard_rep q (unat vb) (fs, ds, t) (A (unat vb)) (L (unat vb))"
    using r v g by (auto simp: rep_with_def)
  then obtain h ds' where ds: "ds = h # ds'"
    using False shard_rep_length [OF sr] by (cases ds) auto
  have ne: "head q ! unat vb \<noteq> tail q ! unat vb"
    using rep_with_empty_iff [OF r v] False by simp
  from rep_with_advance [OF r v g [unfolded ds] refl]
  show ?thesis
    using ne v len False by (auto simp: DequeueSingleElement_def Let_def)
qed


lemma rep_with_lengths:
  assumes "rep_with q G A L"
  shows "length (head q) = unat (numVbuckets q)" "length (tail q) = unat (numVbuckets q)"
    "length (free q) = unat (numVbuckets q)" "length (size_q q) = unat (numVbuckets q)"
  using assms by (simp_all add: rep_with_def)

lemma PeekTail_rep:
  assumes r: "rep_with q G A L" and v: "unat vb < unat (numVbuckets q)"
  shows "PeekTail vb q = Inr (if A (unat vb) = [] then None else last (A (unat vb)))"
proof -
  obtain fs ds t where g: "G (unat vb) = (fs, ds, t)" by (cases "G (unat vb)")
  have sr: "shard_rep q (unat vb) (fs, ds, t) (A (unat vb)) (L (unat vb))"
    using r v g by (auto simp: rep_with_def)
  have e: "(head q ! unat vb = tail q ! unat vb) = (A (unat vb) = [])"
    by (rule rep_with_empty_iff [OF r v])
  have tl: "tail q ! unat vb = Some t" using sr by (simp add: shard_rep_def)
  have "A (unat vb) \<noteq> [] \<Longrightarrow> last (A (unat vb)) = mutation (heap q t)"
    using sr by (cases ds) (auto simp: shard_rep_def last_map)
  then show ?thesis
    using e tl v rep_with_lengths [OF r] by (auto simp: PeekTail_def)
qed

lemma PeekHead_rep:
  assumes r: "rep_with q G A L" and v: "unat vb < unat (numVbuckets q)"
  shows "PeekHead vb q = Inr (if A (unat vb) = [] then None else L (unat vb))"
proof -
  obtain fs ds t where g: "G (unat vb) = (fs, ds, t)" by (cases "G (unat vb)")
  have sr: "shard_rep q (unat vb) (fs, ds, t) (A (unat vb)) (L (unat vb))"
    using r v g by (auto simp: rep_with_def)
  have e: "(head q ! unat vb = tail q ! unat vb) = (A (unat vb) = [])"
    by (rule rep_with_empty_iff [OF r v])
  have "path (\<lambda>a. nxt (heap q a)) (head q ! unat vb) ds (Some t)"
    using sr by (simp add: shard_rep_def)
  then have hd: "head q ! unat vb = Some (hd (ds @ [t]))" by (rule path_head_eq)
  have "L (unat vb) = mutation (heap q (hd (ds @ [t])))"
    using sr by (simp add: shard_rep_def)
  then show ?thesis
    using e hd v rep_with_lengths [OF r] by (auto simp: PeekHead_def)
qed

lemma GetSize_rep:
  assumes r: "rep_with q G A L" and v: "unat vb < unat (numVbuckets q)"
  shows "GetSize vb q = Inr (word_of_nat (length (A (unat vb))))"
proof -
  obtain fs ds t where g: "G (unat vb) = (fs, ds, t)" by (cases "G (unat vb)")
  have sr: "shard_rep q (unat vb) (fs, ds, t) (A (unat vb)) (L (unat vb))"
    using r v g by (auto simp: rep_with_def)
  then have "size_q q ! unat vb = word_of_nat (length (A (unat vb)))"
    using shard_rep_length [OF sr] by (simp add: shard_rep_def)
  then show ?thesis
    using v rep_with_lengths [OF r] by (simp add: GetSize_def)
qed

lemma Enqueue_invalid:
  assumes r: "rep_with q G A L" and v: "\<not> unat vb < unat (numVbuckets q)"
  shows "\<exists>f. Enqueue m vb q = Inl f"
  using v rep_with_lengths [OF r]
  by (simp add: Enqueue_def allocNode_def popFreeList_def Let_def)

lemma Dequeue_invalid:
  assumes r: "rep_with q G A L" and v: "\<not> unat vb < unat (numVbuckets q)"
  shows "\<exists>f. DequeueSingleElement vb q = Inl f"
  using v rep_with_lengths [OF r]
  by (simp add: DequeueSingleElement_def Let_def)

lemma reachable_rep: "reachable q \<Longrightarrow> \<exists>G A L. rep_with q G A L"
proof (induction rule: reachable.induct)
  case (reachable_New n)
  show ?case using rep_New by blast
next
  case (reachable_Enqueue q m vb q1)
  then obtain G A L where r: "rep_with q G A L" by blast
  show ?case
  proof (cases "unat vb < unat (numVbuckets q)")
    case True
    from Enqueue_rep [OF r True, of m] reachable_Enqueue.hyps(2) show ?thesis by auto
  next
    case False
    from Enqueue_invalid [OF r False, of m] reachable_Enqueue.hyps(2) show ?thesis by auto
  qed
next
  case (reachable_Dequeue q vb m q1)
  then obtain G A L where r: "rep_with q G A L" by blast
  show ?case
  proof (cases "unat vb < unat (numVbuckets q)")
    case True
    from Dequeue_rep [OF r True] reachable_Dequeue.hyps(2) show ?thesis by auto
  next
    case False
    from Dequeue_invalid [OF r False] reachable_Dequeue.hyps(2) show ?thesis by auto
  qed
qed

lemma enqueue_all_rep:
  assumes "rep_with q G A L" and "unat vb < unat (numVbuckets q)"
  shows "\<exists>q' G'. enqueue_all ms vb q = Inr q' \<and> numVbuckets q' = numVbuckets q
            \<and> rep_with q' G' (A(unat vb := A (unat vb) @ ms)) L"
  using assms
proof (induction ms arbitrary: q G A)
  case Nil
  then show ?case by auto
next
  case (Cons m ms)
  from Enqueue_rep [OF Cons.prems, of m]
  obtain q1 G1 where e: "Enqueue m vb q = Inr q1" and n: "numVbuckets q1 = numVbuckets q"
    and r1: "rep_with q1 G1 (A(unat vb := A (unat vb) @ [m])) L" by blast
  have v1: "unat vb < unat (numVbuckets q1)" using Cons.prems n by simp
  from Cons.IH [OF r1 v1]
  obtain q' G' where x: "enqueue_all ms vb q1 = Inr q'" "numVbuckets q' = numVbuckets q1"
    and r': "rep_with q' G'
      ((A(unat vb := A (unat vb) @ [m]))(unat vb := (A(unat vb := A (unat vb) @ [m])) (unat vb) @ ms)) L"
    by blast
  from r' have "rep_with q' G' (A(unat vb := A (unat vb) @ m # ms)) L" by simp
  then show ?case using e n x by (intro exI [of _ q'] exI [of _ G']) (simp add: fun_upd_def)
qed

lemma dequeue_n_rep:
  assumes "rep_with q G A L" and "unat vb < unat (numVbuckets q)" and "k \<le> length (A (unat vb))"
  shows "\<exists>q' G' L'. dequeue_n k vb q = Inr (take k (A (unat vb)), q')
            \<and> numVbuckets q' = numVbuckets q
            \<and> rep_with q' G' (A(unat vb := drop k (A (unat vb)))) L'"
  using assms
proof (induction k arbitrary: q G A L)
  case 0
  then show ?case by auto
next
  case (Suc k)
  then obtain x xs where a: "A (unat vb) = x # xs" by (cases "A (unat vb)") auto
  from Dequeue_rep [OF Suc.prems(1,2)] a
  obtain q1 G1 L1 where d: "DequeueSingleElement vb q = Inr (x, q1)"
    and n: "numVbuckets q1 = numVbuckets q"
    and r1: "rep_with q1 G1 (A(unat vb := xs)) L1" by auto
  have v1: "unat vb < unat (numVbuckets q1)" using Suc.prems n by simp
  have k: "k \<le> length ((A(unat vb := xs)) (unat vb))" using Suc.prems a by simp
  from Suc.IH [OF r1 v1 k]
  obtain q' G' L' where x: "dequeue_n k vb q1 = Inr (take k ((A(unat vb := xs)) (unat vb)), q')"
    "numVbuckets q' = numVbuckets q1"
    and r': "rep_with q' G'
      ((A(unat vb := xs))(unat vb := drop k ((A(unat vb := xs)) (unat vb)))) L'"
    by blast
  from r' have "rep_with q' G' (A(unat vb := drop (Suc k) (A (unat vb)))) L'" using a by simp
  then show ?case using d n a x by (intro exI [of _ q'] exI [of _ G'] exI [of _ L']) (simp add: fun_upd_def)
qed

lemma run_ops_rep:
  assumes "rep_with q G A L" and "unat vb < unat (numVbuckets q)"
  shows "\<exists>q' G' A' L' M. run_ops ops vb q = Inr (q', M)
            \<and> numVbuckets q' = numVbuckets q
            \<and> rep_with q' G' A' L'
            \<and> length (A' (unat vb)) + M = length (A (unat vb)) + enqueues ops"
  using assms
proof (induction ops vb q arbitrary: G A L rule: run_ops.induct)
  case (1 vb q)
  then show ?case by auto
next
  case (2 m ops vb q)
  from Enqueue_rep [OF "2.prems", of m]
  obtain q1 G1 where e: "Enqueue m vb q = Inr q1" and n: "numVbuckets q1 = numVbuckets q"
    and r1: "rep_with q1 G1 (A(unat vb := A (unat vb) @ [m])) L" by blast
  have v1: "unat vb < unat (numVbuckets q1)" using "2.prems" n by simp
  from "2.IH" [OF e r1 v1]
  show ?case using e n by auto
next
  case (3 ops vb q)
  from Dequeue_rep [OF "3.prems"]
  obtain q1 G1 L1 x where d: "DequeueSingleElement vb q = Inr (x, q1)"
    and n: "numVbuckets q1 = numVbuckets q"
    and r1: "rep_with q1 G1 (A(unat vb := tl (A (unat vb)))) L1" by blast
  have v1: "unat vb < unat (numVbuckets q1)" using "3.prems" n by simp
  have e: "(head q ! unat vb = tail q ! unat vb) = (A (unat vb) = [])"
    by (rule rep_with_empty_iff [OF "3.prems"])
  from "3.IH" [OF d refl r1 v1]
  obtain q' G' A' L' M where "run_ops ops vb q1 = Inr (q', M)"
    "numVbuckets q' = numVbuckets q1" "rep_with q' G' A' L'"
    "length (A' (unat vb)) + M = length (tl (A (unat vb))) + enqueues ops" by auto
  then show ?case using d n e
    by (cases "A (unat vb)") auto
qed


lemma inner_empty:
  assumes r: "rep_with q G A L" and v: "unat vb < unat (numVbuckets q)"
    and a: "A (unat vb) = []"
  shows "dequeueUptoSeqno_inner vb w (q, c, out) = Some (Inr (False, q, c, out))"
proof -
  have "head q ! unat vb = tail q ! unat vb"
    using rep_with_empty_iff [OF r v] a by simp
  then show ?thesis
    using v rep_with_lengths [OF r]
    by (subst dequeueUptoSeqno_inner.simps) simp
qed

lemma inner_step:
  assumes r: "rep_with q G A L" and v: "unat vb < unat (numVbuckets q)"
    and a: "A (unat vb) = Some m # xs"
  shows "\<exists>q' G'. numVbuckets q' = numVbuckets q
          \<and> rep_with q' G' (A(unat vb := xs)) (L(unat vb := Some m))
          \<and> dequeueUptoSeqno_inner vb w (q, c, out) =
              (if seqno (meta m) < w then dequeueUptoSeqno_inner vb w (q', Suc c, out @ [m])
               else if seqno (meta m) = w then Some (Inr (True, q', Suc c, out @ [m]))
               else Some (Inr (True, q, c, out)))"
proof -
  obtain fs ds t where g: "G (unat vb) = (fs, ds, t)" by (cases "G (unat vb)")
  have sr: "shard_rep q (unat vb) (fs, ds, t) (A (unat vb)) (L (unat vb))"
    using r v g by (auto simp: rep_with_def)
  then obtain h ds' where ds: "ds = h # ds'"
    using a shard_rep_length [OF sr] by (cases ds) auto
  have ne: "head q ! unat vb \<noteq> tail q ! unat vb"
    using rep_with_empty_iff [OF r v] a by simp
  define q' where "q' = q\<lparr>head := list_update (head q) (unat vb) (nxt (heap q h)),
                    size_q := list_update (size_q q) (unat vb) (size_q q ! unat vb - 1)\<rparr>"
  note adv = rep_with_advance [OF r v g [unfolded ds] q'_def]
  have hA: "hd (A (unat vb)) = Some m" "tl (A (unat vb)) = xs" using a by simp_all
  have r': "rep_with q' (G(unat vb := (fs @ [h], ds', t))) (A(unat vb := xs)) (L(unat vb := Some m))"
    and nh: "nxt (heap q h) = Some (hd (ds' @ [t]))"
    and mh: "Some m = mutation (heap q (hd (ds' @ [t])))"
    and hd: "head q ! unat vb = Some h"
    using adv [unfolded hA] by blast+
  have n: "numVbuckets q' = numVbuckets q" by (simp add: q'_def)
  have "dequeueUptoSeqno_inner vb w (q, c, out) =
              (if seqno (meta m) < w then dequeueUptoSeqno_inner vb w (q', Suc c, out @ [m])
               else if seqno (meta m) = w then Some (Inr (True, q', Suc c, out @ [m]))
               else Some (Inr (True, q, c, out)))"
    using ne v rep_with_lengths [OF r] nh mh [symmetric] hd
    by (subst dequeueUptoSeqno_inner.simps) (auto simp: q'_def Let_def)
  then show ?thesis using r' n by blast
qed

lemma ticks_cong:
  assumes "dequeueUptoSeqno_inner vb w st = dequeueUptoSeqno_inner vb w st'"
  shows "dequeueUptoSeqno_ticks vb w st = dequeueUptoSeqno_ticks vb w st'"
  by (subst dequeueUptoSeqno_ticks.simps [of vb w st],
      subst dequeueUptoSeqno_ticks.simps [of vb w st']) (simp only: assms)

lemma ticks_stuck:
  assumes i: "dequeueUptoSeqno_inner vb w (q, c, out) = Some (Inr (False, q, c, out))"
    and c: "c \<noteq> 0"
  shows "dequeueUptoSeqno_ticks vb w (q, c, out) = None"
proof (rule ccontr)
  assume "dequeueUptoSeqno_ticks vb w (q, c, out) \<noteq> None"
  then obtain y where y: "dequeueUptoSeqno_ticks vb w (q, c, out) = Some y" by auto
  have "(vb', w', st') \<noteq> (vb, w, (q, c, out))"
    if s: "dequeueUptoSeqno_ticks vb' w' st' = Some y'" for vb' w' st' y'
  proof (rule dequeueUptoSeqno_ticks.raw_induct
      [where P = "\<lambda>vb' w' st' y'. (vb', w', st') \<noteq> (vb, w, (q, c, out))", OF _ s])
    fix f vb' w' st' y'
    assume IH: "\<And>sq st b y. f sq st b = Some y \<Longrightarrow> (sq, st, b) \<noteq> (vb, w, (q, c, out))"
      and eq: "(case dequeueUptoSeqno_inner vb' w' st' of None \<Rightarrow> None
         | Some (Inl f) \<Rightarrow> Some (Inl f)
         | Some (Inr (returned, q, dequeueCount, sent)) \<Rightarrow>
             if returned then Some (Inr (sent, q))
             else if dequeueCount = 0 then Some (Inr (sent, q))
                  else f vb' w' (q, dequeueCount, sent)) = Some y'"
    show "(vb', w', st') \<noteq> (vb, w, (q, c, out))"
    proof
      assume e: "(vb', w', st') = (vb, w, (q, c, out))"
      with eq i c have "f vb w (q, c, out) = Some y'" by simp
      from IH [OF this] show False by simp
    qed
  qed
  from this [OF y] show False by simp
qed

lemma ticks_rep:
  assumes "rep_with q G A L" and "unat vb < unat (numVbuckets q)"
    and "A (unat vb) = map Some ms"
  shows "if closes w ms c
         then \<exists>q' G' L'. dequeueUptoSeqno_ticks vb w (q, c, out) = Some (Inr (out @ delivered w ms, q'))
            \<and> numVbuckets q' = numVbuckets q
            \<and> rep_with q' G' (A(unat vb := map Some (drop (length (delivered w ms)) ms))) L'
         else dequeueUptoSeqno_ticks vb w (q, c, out) = None"
  using assms
proof (induction ms arbitrary: q G A L c out)
  case Nil
  then have i: "dequeueUptoSeqno_inner vb w (q, c, out) = Some (Inr (False, q, c, out))"
    by (simp add: inner_empty)
  show ?case
  proof (cases "c = 0")
    case True
    have "dequeueUptoSeqno_ticks vb w (q, c, out) = Some (Inr (out, q))"
      unfolding True using i [unfolded True]
      by (subst dequeueUptoSeqno_ticks.simps) simp
    moreover have "A(unat vb := map Some []) = A" using Nil.prems(3) by auto
    ultimately show ?thesis using True Nil.prems(1) by auto
  next
    case False
    then show ?thesis using ticks_stuck [OF i] by simp
  qed
next
  case (Cons m ms)
  from inner_step [OF Cons.prems(1,2), of m "map Some ms" w c out] Cons.prems(3)
  obtain q' G' where n: "numVbuckets q' = numVbuckets q"
    and r': "rep_with q' G' (A(unat vb := map Some ms)) (L(unat vb := Some m))"
    and i: "dequeueUptoSeqno_inner vb w (q, c, out) =
              (if seqno (meta m) < w then dequeueUptoSeqno_inner vb w (q', Suc c, out @ [m])
               else if seqno (meta m) = w then Some (Inr (True, q', Suc c, out @ [m]))
               else Some (Inr (True, q, c, out)))"
    by auto
  consider (below) "seqno (meta m) < w" | (equal) "seqno (meta m) = w" | (above) "w < seqno (meta m)"
    by (metis linorder_less_linear)
  then show ?case
  proof cases
    case below
    then have "dequeueUptoSeqno_inner vb w (q, c, out) = dequeueUptoSeqno_inner vb w (q', Suc c, out @ [m])"
      using i by simp
    then have t: "dequeueUptoSeqno_ticks vb w (q, c, out) = dequeueUptoSeqno_ticks vb w (q', Suc c, out @ [m])"
      by (rule ticks_cong)
    have v': "unat vb < unat (numVbuckets q')" using Cons.prems(2) n by simp
    have a': "(A(unat vb := map Some ms)) (unat vb) = map Some ms" by simp
    have "if closes w ms (Suc c)
         then \<exists>q'' G'' L''. dequeueUptoSeqno_ticks vb w (q', Suc c, out @ [m])
                = Some (Inr ((out @ [m]) @ delivered w ms, q''))
            \<and> numVbuckets q'' = numVbuckets q'
            \<and> rep_with q'' G'' (A(unat vb := map Some (drop (length (delivered w ms)) ms))) L''
         else dequeueUptoSeqno_ticks vb w (q', Suc c, out @ [m]) = None"
      using Cons.IH [OF r' v' a', of "Suc c" "out @ [m]"] by (simp only: fun_upd_upd)
    then show ?thesis using below t n
      by (cases "closes w ms (Suc c)") (auto simp: fun_upd_def [symmetric])
  next
    case equal
    have "dequeueUptoSeqno_ticks vb w (q, c, out) = Some (Inr (out @ [m], q'))"
      by (subst dequeueUptoSeqno_ticks.simps) (simp add: i equal)
    then show ?thesis using equal r' n by (simp add: fun_upd_def [symmetric]) blast
  next
    case above
    have na: "\<not> seqno (meta m) < w" "seqno (meta m) \<noteq> w" using above by auto
    have "dequeueUptoSeqno_ticks vb w (q, c, out) = Some (Inr (out, q))"
      by (subst dequeueUptoSeqno_ticks.simps) (simp add: i na)
    moreover have "A(unat vb := map Some (m # ms)) = A" using Cons.prems(3) by auto
    ultimately show ?thesis using na Cons.prems(1) by auto
  qed
qed

subsection \<open>Order and size\<close>

lemma enqueue_all_New:
  assumes "unat vb < unat n"
  shows "\<exists>G. enqueue_all ms vb (NewAtomicMutationQueue n) = Inr (enqueued ms vb (NewAtomicMutationQueue n))
           \<and> numVbuckets (enqueued ms vb (NewAtomicMutationQueue n)) = n
           \<and> rep_with (enqueued ms vb (NewAtomicMutationQueue n)) G ((\<lambda>i. [])(unat vb := ms)) (\<lambda>i. None)"
proof -
  have v: "unat vb < unat (numVbuckets (NewAtomicMutationQueue n))"
    using assms by (simp add: NewAtomicMutationQueue_def)
  from enqueue_all_rep [OF rep_New v, of ms]
  obtain q' G' where e: "enqueue_all ms vb (NewAtomicMutationQueue n) = Inr q'"
    and n: "numVbuckets q' = numVbuckets (NewAtomicMutationQueue n)"
    and r: "rep_with q' G' ((\<lambda>i. [])(unat vb := [] @ ms)) (\<lambda>i. None)" by blast
  have "enqueued ms vb (NewAtomicMutationQueue n) = q'" by (simp add: enqueued_def e)
  then show ?thesis using e n r by (auto simp: NewAtomicMutationQueue_def)
qed

lemma closes_below:
  "\<forall>m \<in> set ms. seqno (meta m) < w \<Longrightarrow> closes w ms c = (ms = [] \<and> c = 0)"
  by (induction ms arbitrary: c) auto

lemma delivered_below:
  "\<forall>m \<in> set ms. seqno (meta m) < w \<Longrightarrow> delivered w ms = ms"
  by (induction ms) auto

lemma dequeueUptoSeqno_rep:
  assumes "rep_with q G A L" and "unat vb < unat (numVbuckets q)"
    and "A (unat vb) = map Some ms"
  shows "if closes w ms 0
         then \<exists>q' G' L'. dequeueUptoSeqno vb w q = Some (Inr (delivered w ms, q'))
            \<and> numVbuckets q' = numVbuckets q
            \<and> rep_with q' G' (A(unat vb := map Some (drop (length (delivered w ms)) ms))) L'
         else dequeueUptoSeqno vb w q = None"
  using ticks_rep [OF assms, of w 0 "[]"]
  by (cases "closes w ms 0") (auto simp: dequeueUptoSeqno_def)

lemma sint_word_of_nat:
  assumes "k < 2 ^ 63"
  shows "sint (word_of_nat k :: 64 word) = int k"
proof -
  have "(int k) < 2 ^ 63" using assms by (metis of_nat_less_numeral_power_cancel_iff)
  then show ?thesis
    by (simp add: signed_of_nat signed_take_bit_int_eq_self)
qed

text \<open>
  C1. In a queue state the program can reach, take a vbucket with a valid id whose queue
  is empty. After the mutations \<open>ms\<close> are enqueued on it in order, with no dequeue in
  between, as many calls of \<^verbatim>\<open>DequeueSingleElement\<close> as there are mutations return exactly
  \<open>ms\<close>, in the order of the enqueues; none of the calls fails.
\<close>

theorem FIFO_per_shard:
  assumes "reachable q" and "unat vb < unat (numVbuckets q)"
    and "head q ! unat vb = tail q ! unat vb"
  shows "\<exists>q1 q2. enqueue_all ms vb q = Inr q1 \<and> dequeue_n (length ms) vb q1 = Inr (ms, q2)"
proof -
  obtain G A L where r: "rep_with q G A L" using reachable_rep [OF assms(1)] by blast
  have a: "A (unat vb) = []" using rep_with_empty_iff [OF r assms(2)] assms(3) by simp
  from enqueue_all_rep [OF r assms(2), of ms]
  obtain q1 G1 where e: "enqueue_all ms vb q = Inr q1" and n: "numVbuckets q1 = numVbuckets q"
    and r1: "rep_with q1 G1 (A(unat vb := A (unat vb) @ ms)) L" by blast
  have v1: "unat vb < unat (numVbuckets q1)" using assms(2) n by simp
  have k: "length ms \<le> length ((A(unat vb := A (unat vb) @ ms)) (unat vb))" by simp
  from dequeue_n_rep [OF r1 v1 k] a
  obtain q2 where "dequeue_n (length ms) vb q1 = Inr (ms, q2)" by auto
  then show ?thesis using e by blast
qed

theorem FIFO_per_shard_witness:
  "reachable (NewAtomicMutationQueue 2) \<and> unat (1 :: Vbucket) < unat (numVbuckets (NewAtomicMutationQueue 2))
   \<and> head (NewAtomicMutationQueue 2) ! unat (1 :: Vbucket) = tail (NewAtomicMutationQueue 2) ! unat (1 :: Vbucket)
   \<and> (\<exists>q1 q2. enqueue_all [Some (mk 1 ''a''), Some (mk 2 ''b''), None] 1 (NewAtomicMutationQueue 2) = Inr q1
        \<and> dequeue_n (length [Some (mk 1 ''a''), Some (mk 2 ''b''), None]) 1 q1
            = Inr ([Some (mk 1 ''a''), Some (mk 2 ''b''), None], q2))"
proof -
  have h: "reachable (NewAtomicMutationQueue 2)" by (rule reachable_New)
  have v: "unat (1 :: Vbucket) < unat (numVbuckets (NewAtomicMutationQueue 2))"
    by (simp add: NewAtomicMutationQueue_def)
  have e: "head (NewAtomicMutationQueue 2) ! unat (1 :: Vbucket) = tail (NewAtomicMutationQueue 2) ! unat (1 :: Vbucket)"
    by (simp add: NewAtomicMutationQueue_def)
  from FIFO_per_shard [OF h v e, of "[Some (mk 1 ''a''), Some (mk 2 ''b''), None]"]
  show ?thesis using h v e by blast
qed

text \<open>
  C9. In a queue state the program can reach, any sequence of \<^verbatim>\<open>Enqueue\<close> and
  \<^verbatim>\<open>DequeueSingleElement\<close> calls on a vbucket with a valid id changes \<^verbatim>\<open>GetSize\<close> by the number
  of enqueues minus the number of dequeues that removed an element (in 64-bit
  arithmetic). Starting from an empty queue of the vbucket, with \<open>N\<close> enqueues and \<open>M\<close>
  removals, \<open>M \<le> N\<close> and \<^verbatim>\<open>GetSize\<close> returns \<open>N - M\<close>; read as a signed 64-bit number this
  is \<open>N - M\<close> as long as \<open>N\<close> is below \<open>2 ^ 63\<close>.
\<close>

theorem GetSize_consistent:
  assumes "reachable q" and "unat vb < unat (numVbuckets q)"
  shows "\<exists>q' M s. run_ops ops vb q = Inr (q', M) \<and> GetSize vb q = Inr s
           \<and> GetSize vb q' = Inr (s + word_of_nat (enqueues ops) - word_of_nat M)
           \<and> (head q ! unat vb = tail q ! unat vb \<longrightarrow>
                s = 0 \<and> M \<le> enqueues ops
              \<and> GetSize vb q' = Inr (word_of_nat (enqueues ops - M))
              \<and> (enqueues ops < 2 ^ 63 \<longrightarrow>
                   sint (word_of_nat (enqueues ops - M) :: 64 word) = int (enqueues ops) - int M))"
proof -
  obtain G A L where r: "rep_with q G A L" using reachable_rep [OF assms(1)] by blast
  from run_ops_rep [OF r assms(2), of ops]
  obtain q' G' A' L' M where x: "run_ops ops vb q = Inr (q', M)"
    and n: "numVbuckets q' = numVbuckets q" and r': "rep_with q' G' A' L'"
    and l: "length (A' (unat vb)) + M = length (A (unat vb)) + enqueues ops" by blast
  have v': "unat vb < unat (numVbuckets q')" using assms(2) n by simp
  have s: "GetSize vb q = Inr (word_of_nat (length (A (unat vb))))"
    by (rule GetSize_rep [OF r assms(2)])
  have s': "GetSize vb q' = Inr (word_of_nat (length (A' (unat vb))))"
    by (rule GetSize_rep [OF r' v'])
  have "(word_of_nat (length (A' (unat vb))) :: 64 word) + word_of_nat M
        = word_of_nat (length (A (unat vb))) + word_of_nat (enqueues ops)"
    using l by (metis of_nat_add)
  then have w: "(word_of_nat (length (A' (unat vb))) :: 64 word)
        = word_of_nat (length (A (unat vb))) + word_of_nat (enqueues ops) - word_of_nat M"
    by (simp add: algebra_simps)
  have e: "head q ! unat vb = tail q ! unat vb \<Longrightarrow> A (unat vb) = []"
    using rep_with_empty_iff [OF r assms(2)] by simp
  have "head q ! unat vb = tail q ! unat vb \<Longrightarrow> length (A' (unat vb)) = enqueues ops - M \<and> M \<le> enqueues ops"
    using e l by auto
  moreover have "enqueues ops < 2 ^ 63 \<Longrightarrow> M \<le> enqueues ops \<Longrightarrow>
      sint (word_of_nat (enqueues ops - M) :: 64 word) = int (enqueues ops) - int M"
    using sint_word_of_nat [of "enqueues ops - M"] by simp
  ultimately show ?thesis using x s s' w e by auto
qed

theorem GetSize_consistent_witness:
  "reachable (NewAtomicMutationQueue 1) \<and> unat (0 :: Vbucket) < unat (numVbuckets (NewAtomicMutationQueue 1))
   \<and> head (NewAtomicMutationQueue 1) ! unat (0 :: Vbucket) = tail (NewAtomicMutationQueue 1) ! unat (0 :: Vbucket)
   \<and> enqueues [Enq (Some (mk 1 ''a'')), Deq, Deq, Enq (Some (mk 2 ''b'')), Enq None] < 2 ^ 63
   \<and> (\<exists>q' M. run_ops [Enq (Some (mk 1 ''a'')), Deq, Deq, Enq (Some (mk 2 ''b'')), Enq None] 0
                 (NewAtomicMutationQueue 1) = Inr (q', M)
        \<and> M \<le> 3 \<and> GetSize 0 q' = Inr (word_of_nat (3 - M))
        \<and> sint (word_of_nat (3 - M) :: 64 word) = 3 - int M)"
proof -
  let ?ops = "[Enq (Some (mk 1 ''a'')), Deq, Deq, Enq (Some (mk 2 ''b'')), Enq None]"
  have h: "reachable (NewAtomicMutationQueue 1)" by (rule reachable_New)
  have v: "unat (0 :: Vbucket) < unat (numVbuckets (NewAtomicMutationQueue 1))"
    by (simp add: NewAtomicMutationQueue_def)
  have e: "head (NewAtomicMutationQueue 1) ! unat (0 :: Vbucket) = tail (NewAtomicMutationQueue 1) ! unat (0 :: Vbucket)"
    by (simp add: NewAtomicMutationQueue_def)
  have n: "enqueues ?ops = 3" by simp
  have b: "enqueues ?ops < 2 ^ 63" by simp
  from GetSize_consistent [OF h v, of ?ops] e b
  obtain q' M where "run_ops ?ops 0 (NewAtomicMutationQueue 1) = Inr (q', M)"
    "M \<le> enqueues ?ops" "GetSize 0 q' = Inr (word_of_nat (enqueues ?ops - M))"
    "sint (word_of_nat (enqueues ?ops - M) :: 64 word) = int (enqueues ?ops) - int M"
    by blast
  then show ?thesis using h v e b unfolding n by auto
qed

subsection \<open>Peeking\<close>

lemmas queue_eval = enqueued_def dequeued_def drained_def Enqueue_def allocNode_def popFreeList_def
  NewAtomicMutationQueue_def DequeueSingleElement_def PeekHead_def PeekTail_def Let_def zero_node_def
  mk_def dequeueUptoSeqno_def dequeueUptoSeqno_ticks.simps dequeueUptoSeqno_inner.simps
  word_le_nat_alt word_less_nat_alt

lemma Peek_empty:
  assumes "reachable q" and "unat vb < unat (numVbuckets q)"
    and "head q ! unat vb = tail q ! unat vb"
  shows "PeekHead vb q = Inr None \<and> PeekTail vb q = Inr None"
proof -
  obtain G A L where r: "rep_with q G A L" using reachable_rep [OF assms(1)] by blast
  have "A (unat vb) = []" using rep_with_empty_iff [OF r assms(2)] assms(3) by simp
  then show ?thesis using PeekHead_rep [OF r assms(2)] PeekTail_rep [OF r assms(2)] by simp
qed

lemma PeekTail_last_enqueued:
  assumes "reachable q" and "unat vb < unat (numVbuckets q)"
  shows "\<exists>q1. Enqueue m vb q = Inr q1 \<and> PeekTail vb q1 = Inr m"
proof -
  obtain G A L where r: "rep_with q G A L" using reachable_rep [OF assms(1)] by blast
  from Enqueue_rep [OF r assms(2), of m]
  obtain q1 G1 where e: "Enqueue m vb q = Inr q1" and n: "numVbuckets q1 = numVbuckets q"
    and r1: "rep_with q1 G1 (A(unat vb := A (unat vb) @ [m])) L" by blast
  have v1: "unat vb < unat (numVbuckets q1)" using assms(2) n by simp
  show ?thesis using e PeekTail_rep [OF r1 v1] by simp
qed

text \<open>
  C7. \<^verbatim>\<open>PeekHead\<close> on a fresh queue of one vbucket after two enqueues returns nil, although
  the queue is not empty: it reads the payload of the node the head pointer stands on,
  which is the sentinel, while \<^verbatim>\<open>DequeueSingleElement\<close> reads the node after it and returns
  the first mutation. After that dequeue \<^verbatim>\<open>PeekHead\<close> returns the mutation just dequeued,
  not the one the next dequeue returns. \<^verbatim>\<open>PeekTail\<close> returns the last mutation enqueued.
\<close>

theorem PeekHead_reads_sentinel:
  "enqueue_all [Some (mk 1 ''a''), Some (mk 2 ''b'')] 0 (NewAtomicMutationQueue 1)
     = Inr (enqueued [Some (mk 1 ''a''), Some (mk 2 ''b'')] 0 (NewAtomicMutationQueue 1))
   \<and> PeekHead 0 (enqueued [Some (mk 1 ''a''), Some (mk 2 ''b'')] 0 (NewAtomicMutationQueue 1)) = Inr None
   \<and> PeekTail 0 (enqueued [Some (mk 1 ''a''), Some (mk 2 ''b'')] 0 (NewAtomicMutationQueue 1))
       = Inr (Some (mk 2 ''b''))
   \<and> map_sum id fst (DequeueSingleElement 0
         (enqueued [Some (mk 1 ''a''), Some (mk 2 ''b'')] 0 (NewAtomicMutationQueue 1)))
       = Inr (Some (mk 1 ''a''))
   \<and> PeekHead 0 (dequeued 1 0 (enqueued [Some (mk 1 ''a''), Some (mk 2 ''b'')] 0 (NewAtomicMutationQueue 1)))
       = Inr (Some (mk 1 ''a''))
   \<and> map_sum id fst (DequeueSingleElement 0
         (dequeued 1 0 (enqueued [Some (mk 1 ''a''), Some (mk 2 ''b'')] 0 (NewAtomicMutationQueue 1))))
       = Inr (Some (mk 2 ''b''))"
  by (simp add: queue_eval)

subsection \<open>Draining up to a sequence number\<close>

text \<open>
  C2. On a fresh queue of one vbucket holding mutations with the sequence numbers
  1, 2, 2, 3, 5, \<^verbatim>\<open>dequeueUptoSeqno\<close> with sequence number 2 sends the first two mutations
  (1 and the first 2) and closes the channel: the test \<^verbatim>\<open>seqno <= m.meta.seqno\<close> ends the
  call at the first mutation that equals the watermark. The second mutation with
  sequence number 2 stays in the queue, in front of 3 and 5.
\<close>

theorem dequeueUptoSeqno_stops_at_watermark:
  "enqueue_all (map Some [mk 1 ''a'', mk 2 ''b'', mk 2 ''c'', mk 3 ''d'', mk 5 ''e'']) 0 (NewAtomicMutationQueue 1)
     = Inr (enqueued (map Some [mk 1 ''a'', mk 2 ''b'', mk 2 ''c'', mk 3 ''d'', mk 5 ''e'']) 0 (NewAtomicMutationQueue 1))
   \<and> map_option (map_sum id fst) (dequeueUptoSeqno 0 2
         (enqueued (map Some [mk 1 ''a'', mk 2 ''b'', mk 2 ''c'', mk 3 ''d'', mk 5 ''e'']) 0 (NewAtomicMutationQueue 1)))
       = Some (Inr [mk 1 ''a'', mk 2 ''b''])
   \<and> map_sum id fst (dequeue_n 3 0 (drained 0 2
         (enqueued (map Some [mk 1 ''a'', mk 2 ''b'', mk 2 ''c'', mk 3 ''d'', mk 5 ''e'']) 0 (NewAtomicMutationQueue 1))))
       = Inr [Some (mk 2 ''c''), Some (mk 3 ''d''), Some (mk 5 ''e'')]"
  by (simp add: queue_eval numeral_3_eq_3)

lemma dequeueUptoSeqno_below:
  assumes "reachable q" and "unat vb < unat (numVbuckets q)"
    and "head q ! unat vb = tail q ! unat vb"
    and "\<forall>m \<in> set ms. seqno (meta m) < w"
  shows "\<exists>q1. enqueue_all (map Some ms) vb q = Inr q1
           \<and> dequeueUptoSeqno vb w q1 = (if ms = [] then Some (Inr ([], q1)) else None)"
proof -
  obtain G A L where r: "rep_with q G A L" using reachable_rep [OF assms(1)] by blast
  have a: "A (unat vb) = []" using rep_with_empty_iff [OF r assms(2)] assms(3) by simp
  from enqueue_all_rep [OF r assms(2), of "map Some ms"]
  obtain q1 G1 where e: "enqueue_all (map Some ms) vb q = Inr q1" and n: "numVbuckets q1 = numVbuckets q"
    and r1: "rep_with q1 G1 (A(unat vb := A (unat vb) @ map Some ms)) L" by blast
  have v1: "unat vb < unat (numVbuckets q1)" using assms(2) n by simp
  have a1: "(A(unat vb := A (unat vb) @ map Some ms)) (unat vb) = map Some ms" using a by simp
  have c: "closes w ms 0 = (ms = [])" using closes_below [OF assms(4), of 0] by simp
  show ?thesis
  proof (cases "ms = []")
    case True
    then have "enqueue_all (map Some ms) vb q = Inr q" by simp
    then have q1: "q1 = q" using e by simp
    have "dequeueUptoSeqno_inner vb w (q, 0, []) = Some (Inr (False, q, 0, []))"
      by (rule inner_empty [OF r assms(2) a])
    then have "dequeueUptoSeqno vb w q = Some (Inr ([], q))"
      unfolding dequeueUptoSeqno_def
      by (subst dequeueUptoSeqno_ticks.simps) simp
    then show ?thesis using True e q1 by simp
  next
    case False
    then have "dequeueUptoSeqno vb w q1 = None"
      using dequeueUptoSeqno_rep [OF r1 v1 a1, of w] c by simp
    then show ?thesis using False e by simp
  qed
qed

text \<open>
  C4 (as amended). Take a reachable queue state and a valid vbucket whose queue is empty,
  enqueue mutations that are all below the watermark and call \<^verbatim>\<open>dequeueUptoSeqno\<close>, with no
  enqueue during the call. If nothing was enqueued, the first poll finds the queue empty
  with nothing sent and the call closes the channel at once. Otherwise the call sends
  the mutations, the queue runs empty, and since \<^verbatim>\<open>dequeueCount\<close> is not 0 the call keeps
  polling: the channel is never closed.
\<close>

theorem dequeueUptoSeqno_empties:
  assumes "reachable q" and "unat vb < unat (numVbuckets q)"
    and "head q ! unat vb = tail q ! unat vb"
    and "\<forall>m \<in> set ms. seqno (meta m) < w"
  shows "\<exists>q1. enqueue_all (map Some ms) vb q = Inr q1
           \<and> dequeueUptoSeqno vb w q1 = (if ms = [] then Some (Inr ([], q1)) else None)"
  using assms by (rule dequeueUptoSeqno_below)

theorem dequeueUptoSeqno_empties_witness:
  "reachable (NewAtomicMutationQueue 1) \<and> unat (0 :: Vbucket) < unat (numVbuckets (NewAtomicMutationQueue 1))
   \<and> head (NewAtomicMutationQueue 1) ! unat (0 :: Vbucket) = tail (NewAtomicMutationQueue 1) ! unat (0 :: Vbucket)
   \<and> seqno (meta (mk 1 ''a'')) < 5 \<and> seqno (meta (mk 3 ''b'')) < 5
   \<and> (\<exists>q1. enqueue_all (map Some [mk 1 ''a'', mk 3 ''b'']) 0 (NewAtomicMutationQueue 1) = Inr q1
         \<and> dequeueUptoSeqno 0 5 q1 = None)"
proof -
  have h: "reachable (NewAtomicMutationQueue 1)" by (rule reachable_New)
  have v: "unat (0 :: Vbucket) < unat (numVbuckets (NewAtomicMutationQueue 1))"
    by (simp add: NewAtomicMutationQueue_def)
  have e: "head (NewAtomicMutationQueue 1) ! unat (0 :: Vbucket) = tail (NewAtomicMutationQueue 1) ! unat (0 :: Vbucket)"
    by (simp add: NewAtomicMutationQueue_def)
  have b: "\<forall>m \<in> set [mk 1 ''a'', mk 3 ''b'']. seqno (meta m) < 5"
    by (simp add: mk_def word_less_nat_alt)
  from dequeueUptoSeqno_empties [OF h v e b]
  show ?thesis using h v e b by simp
qed

text \<open>
  The claim C4 as stated fails: with one mutation of sequence number 1 in the queue and
  watermark 5 the call delivers the mutation, the queue is empty from then on, and the
  channel is never closed.
\<close>

theorem dequeueUptoSeqno_keeps_polling:
  "enqueue_all [Some (mk 1 ''a'')] 0 (NewAtomicMutationQueue 1)
     = Inr (enqueued [Some (mk 1 ''a'')] 0 (NewAtomicMutationQueue 1))
   \<and> dequeueUptoSeqno 0 5 (enqueued [Some (mk 1 ''a'')] 0 (NewAtomicMutationQueue 1)) = None"
proof -
  have h: "reachable (NewAtomicMutationQueue 1)" by (rule reachable_New)
  have v: "unat (0 :: Vbucket) < unat (numVbuckets (NewAtomicMutationQueue 1))"
    by (simp add: NewAtomicMutationQueue_def)
  have e: "head (NewAtomicMutationQueue 1) ! unat (0 :: Vbucket) = tail (NewAtomicMutationQueue 1) ! unat (0 :: Vbucket)"
    by (simp add: NewAtomicMutationQueue_def)
  have b: "\<forall>m \<in> set [mk 1 ''a'']. seqno (meta m) < 5"
    by (simp add: mk_def word_less_nat_alt)
  from dequeueUptoSeqno_below [OF h v e b]
  obtain q1 where q1: "enqueue_all (map Some [mk 1 ''a'']) 0 (NewAtomicMutationQueue 1) = Inr q1"
    and n: "dequeueUptoSeqno 0 5 q1 = None" by auto
  have "enqueued [Some (mk 1 ''a'')] 0 (NewAtomicMutationQueue 1) = q1"
    using q1 by (simp add: enqueued_def)
  then show ?thesis using q1 n by simp
qed

section \<open>Properties of the stream-control sender\<close>

lemma Run_loop_first_success:
  assumes "Run_loop k r0 call err0 s0 = (e, s', n)"
    and "I s0"
    and "\<And>j err s e1 s1. I s \<Longrightarrow> call j err s = (Some e1, s1) \<Longrightarrow> I s1"
    and "\<And>err s. I s \<Longrightarrow> fst (call r err s) = None \<and> R (snd (call r err s))"
    and "r0 \<le> r" and "r < n"
  shows "n = Suc r \<and> e = None \<and> R s'"
  using assms(1,2,5,6)
proof (induction k arbitrary: r0 err0 s0)
  case 0
  then show ?case by simp
next
  case (Suc k)
  obtain x s1 where c: "call r0 err0 s0 = (x, s1)" by (cases "call r0 err0 s0")
  show ?case
  proof (cases x)
    case None
    then have res: "e = None" "s' = s1" "n = Suc r0" using Suc.prems(1) c by simp_all
    then have "r = r0" using Suc.prems(3,4) by simp
    then show ?thesis using res assms(4) [OF Suc.prems(2), of err0] c by simp
  next
    case (Some e1)
    then have run: "Run_loop k (Suc r0) call (Some e1) s1 = (e, s', n)" using Suc.prems(1) c by simp
    have "r0 \<noteq> r" using assms(4) [OF Suc.prems(2), of err0] c Some by auto
    then have le: "Suc r0 \<le> r" using Suc.prems(3) by simp
    have "I s1" using assms(3) [OF Suc.prems(2)] c Some by simp
    from Suc.IH [OF run this le Suc.prems(4)] show ?thesis .
  qed
qed

lemma rollback_fold_keeps:
  "acc \<noteq> None \<Longrightarrow>
   foldl (\<lambda>rollbackTs ts.
        case ts of
          None \<Rightarrow> rollbackTs
        | Some t \<Rightarrow>
            if \<not> IsEmpty M t \<and> GetBucket M t = bucket then
              (case rollbackTs of None \<Rightarrow> Some (Clone M t) | Some a \<Rightarrow> Some (Union M a t))
            else rollbackTs) acc xs \<noteq> None"
  by (induction xs arbitrary: acc) (auto split: option.splits)

lemma rollback_fold_hits:
  "Some t \<in> set xs \<Longrightarrow> \<not> IsEmpty M t \<Longrightarrow> GetBucket M t = bucket \<Longrightarrow>
   foldl (\<lambda>rollbackTs ts.
        case ts of
          None \<Rightarrow> rollbackTs
        | Some t \<Rightarrow>
            if \<not> IsEmpty M t \<and> GetBucket M t = bucket then
              (case rollbackTs of None \<Rightarrow> Some (Clone M t) | Some a \<Rightarrow> Some (Union M a t))
            else rollbackTs) acc xs \<noteq> None"
proof (induction xs arbitrary: acc)
  case Nil
  then show ?case by simp
next
  case (Cons x xs)
  show ?case
  proof (cases "x = Some t")
    case True
    then show ?thesis
      using Cons.prems(2,3) rollback_fold_keeps [where M = M and bucket = bucket and xs = xs]
      by (cases acc) auto
  next
    case False
    then have "Some t \<in> set xs" using Cons.prems(1) by simp
    from Cons.IH [OF this Cons.prems(2,3)] show ?thesis by simp
  qed
qed

lemma updateRollback_keeps:
  "acc \<noteq> None \<Longrightarrow> updateRollbackTsFromResponse M bucket acc res \<noteq> None"
  unfolding updateRollbackTsFromResponse_def by (rule rollback_fold_keeps)

lemma updateRollback_hits:
  "Some t \<in> set (RollbackTimestamps res) \<Longrightarrow> \<not> IsEmpty M t \<Longrightarrow> GetBucket M t = bucket \<Longrightarrow>
   updateRollbackTsFromResponse M bucket acc res \<noteq> None"
  unfolding updateRollbackTsFromResponse_def by (rule rollback_fold_hits)

lemma fanout_rollbackTs:
  "rollbackTs (snd (foldl (\<lambda>st addr. openMutationStream_request M bucket (answers addr) st) (err, vars) addrs))
   = foldl (\<lambda>acc addr.
        case answers addr of
          Called (res, None) \<Rightarrow> updateRollbackTsFromResponse M bucket acc res
        | _ \<Rightarrow> acc)
       (rollbackTs vars) addrs"
proof (induction addrs arbitrary: err vars)
  case Nil
  show ?case by simp
next
  case (Cons a addrs)
  obtain err1 vars1 where s: "openMutationStream_request M bucket (answers a) (err, vars) = (err1, vars1)"
    by (cases "openMutationStream_request M bucket (answers a) (err, vars)")
  have "rollbackTs vars1 = (case answers a of
          Called (res, None) \<Rightarrow> updateRollbackTsFromResponse M bucket (rollbackTs vars) res
        | _ \<Rightarrow> rollbackTs vars)"
    using s by (auto simp: openMutationStream_request_def split: call.splits option.splits prod.splits)
  then show ?case using Cons.IH [of err1 vars1] s by simp
qed

lemma rollback_acc_keeps:
  "acc \<noteq> None \<Longrightarrow>
   foldl (\<lambda>acc addr.
        case answers addr of
          Called (res, None) \<Rightarrow> updateRollbackTsFromResponse M bucket acc res
        | _ \<Rightarrow> acc) acc addrs \<noteq> None"
proof (induction addrs arbitrary: acc)
  case Nil
  then show ?case by simp
next
  case (Cons a addrs)
  have "(case answers a of
          Called (res, None) \<Rightarrow> updateRollbackTsFromResponse M bucket acc res
        | _ \<Rightarrow> acc) \<noteq> None"
    using Cons.prems updateRollback_keeps [of acc M bucket]
    by (auto split: call.splits option.splits prod.splits)
  from Cons.IH [OF this] show ?case by simp
qed

lemma rollback_acc_hits:
  assumes "contributesRollback M bucket addrs answers"
  shows "foldl (\<lambda>acc addr.
        case answers addr of
          Called (res, None) \<Rightarrow> updateRollbackTsFromResponse M bucket acc res
        | _ \<Rightarrow> acc) acc addrs \<noteq> None"
proof -
  obtain addr res t where a: "addr \<in> set addrs" and c: "answers addr = Called (res, None)"
    and t: "Some t \<in> set (RollbackTimestamps res)" "\<not> IsEmpty M t" "GetBucket M t = bucket"
    using assms by (auto simp: contributesRollback_def)
  from a show ?thesis
  proof (induction addrs arbitrary: acc)
    case Nil
    then show ?case by simp
  next
    case (Cons x xs)
    show ?case
    proof (cases "x = addr")
      case True
      have "updateRollbackTsFromResponse M bucket acc res \<noteq> None"
        by (rule updateRollback_hits [OF t])
      then show ?thesis using True c rollback_acc_keeps [where answers = answers and M = M and bucket = bucket and addrs = xs] by simp
    next
      case False
      then have "addr \<in> set xs" using Cons.prems by simp
      from Cons.IH [OF this] show ?thesis by simp
    qed
  qed
qed


lemma openMutationStream_fn_error:
  assumes "openMutationStream_fn M bucket vbnos addrs env j err vars = (Some e1, vars1)"
  shows "rollbackTs vars1 = None"
  using assms
  by (auto simp: openMutationStream_fn_def Let_def split: prod.splits if_splits)

lemma union_fold_Some:
  "foldl (\<lambda>acc t. case acc of None \<Rightarrow> Some (Clone M t) | Some a \<Rightarrow> Some (Union M a t)) (Some a) cs
   = Some (foldl (Union M) a cs)"
  by (induction cs arbitrary: a) simp_all

lemma rollback_fold_contributions:
  "foldl (\<lambda>rollbackTs ts.
        case ts of
          None \<Rightarrow> rollbackTs
        | Some t \<Rightarrow>
            if \<not> IsEmpty M t \<and> GetBucket M t = bucket then
              (case rollbackTs of None \<Rightarrow> Some (Clone M t) | Some a \<Rightarrow> Some (Union M a t))
            else rollbackTs) acc xs
   = foldl (\<lambda>acc t. case acc of None \<Rightarrow> Some (Clone M t) | Some a \<Rightarrow> Some (Union M a t)) acc
       (filter (\<lambda>t. \<not> IsEmpty M t \<and> GetBucket M t = bucket)
          (concat (map (\<lambda>ts. case ts of None \<Rightarrow> [] | Some t \<Rightarrow> [t]) xs)))"
  by (induction xs arbitrary: acc) (simp_all split: option.splits)

lemma updateRollback_contributions:
  "updateRollbackTsFromResponse M bucket acc res
   = foldl (\<lambda>acc t. case acc of None \<Rightarrow> Some (Clone M t) | Some a \<Rightarrow> Some (Union M a t)) acc
       (responseContributions M bucket res)"
  unfolding updateRollbackTsFromResponse_def responseContributions_def
  by (rule rollback_fold_contributions)

lemma fanout_contributions:
  "foldl (\<lambda>acc addr.
        case answers addr of
          Called (res, None) \<Rightarrow> updateRollbackTsFromResponse M bucket acc res
        | _ \<Rightarrow> acc) acc addrs
   = foldl (\<lambda>acc t. case acc of None \<Rightarrow> Some (Clone M t) | Some a \<Rightarrow> Some (Union M a t)) acc
       (rollbackContributions M bucket addrs answers)"
proof (induction addrs arbitrary: acc)
  case Nil
  show ?case by (simp add: rollbackContributions_def)
next
  case (Cons x xs)
  have split: "rollbackContributions M bucket (x # xs) answers
      = (case answers x of Called (res, None) \<Rightarrow> responseContributions M bucket res | _ \<Rightarrow> [])
        @ rollbackContributions M bucket xs answers"
    by (simp add: rollbackContributions_def)
  show ?case
    unfolding split foldl_append foldl_Cons Cons.IH
    by (simp add: updateRollback_contributions split: call.splits prod.splits option.splits)
qed

lemma openMutationStream_fn_rollback:
  assumes "contributesRollback M bucket addrs (env r)" and "rollbackTs vars = None"
  shows "fst (openMutationStream_fn M bucket vbnos addrs env r err vars) = None
       \<and> (\<exists>t ts. rollbackContributions M bucket addrs (env r) = t # ts
             \<and> rollbackTs (snd (openMutationStream_fn M bucket vbnos addrs env r err vars))
                 = Some (foldl (Union M) (Clone M t) ts))"
proof -
  let ?step = "\<lambda>acc t. case acc of None \<Rightarrow> Some (Clone M t) | Some a \<Rightarrow> Some (Union M a t)"
  obtain err1 vars1 where f: "foldl (\<lambda>st addr. openMutationStream_request M bucket (env r addr) st)
      (err, vars) addrs = (err1, vars1)"
    by (cases "foldl (\<lambda>st addr. openMutationStream_request M bucket (env r addr) st) (err, vars) addrs")
  have u: "rollbackTs vars1 = foldl ?step None (rollbackContributions M bucket addrs (env r))"
    using fanout_rollbackTs [of M bucket "env r" err vars addrs] f assms(2)
    by (simp add: fanout_contributions)
  have n: "foldl ?step None (rollbackContributions M bucket addrs (env r)) \<noteq> None"
    using rollback_acc_hits [OF assms(1), of None] by (simp add: fanout_contributions)
  then obtain t ts where c: "rollbackContributions M bucket addrs (env r) = t # ts"
    by (cases "rollbackContributions M bucket addrs (env r)") auto
  have v: "rollbackTs vars1 = Some (foldl (Union M) (Clone M t) ts)"
    using u by (simp add: c union_fold_Some)
  show ?thesis using f c v by (simp add: openMutationStream_fn_def)
qed

text \<open>
  C3. Let \<^verbatim>\<open>openMutationStream\<close> make its fan-out (the index list is not empty and the
  cluster information was fetched) and let \<open>r\<close> be an attempt it made in which some
  projector's answer contributes a rollback timestamp of the bucket that is not nil and
  not empty. Then \<open>r\<close> is the last attempt made, and the message on the response channel
  is not \<^verbatim>\<open>MsgSuccess\<close> but \<^verbatim>\<open>MsgRollback\<close> with the stream, the bucket and, in native
  format, the union of the rollback timestamps that the answers of that attempt
  contribute: the copy of the first united with each of the others in turn. Nothing is
  assumed about the other projectors' answers (active timestamps, errors, skipped
  requests).
\<close>

theorem rollback_precedence:
  assumes "openMutationStream M k nvb env streamId (inst # rest) = (msg, attempts)"
    and "getAllProjectorAddrs k = Inr addrs"
    and "r < attempts"
    and "contributesRollback M (Bucket (Defn inst)) addrs (env r)"
  shows "attempts = Suc r \<and> msg \<noteq> MsgSuccess
       \<and> (\<exists>t ts. rollbackContributions M (Bucket (Defn inst)) addrs (env r) = t # ts
             \<and> msg = MsgRollback streamId (Bucket (Defn inst))
                       (ToTsVbuuid M (foldl (Union M) (Clone M t) ts) nvb))"
proof -
  let ?b = "Bucket (Defn inst)"
  obtain vbnos where vb: "getAllVbucketsInCluster k ?b = Inr vbnos"
    using assms(1,3) by (cases "getAllVbucketsInCluster k ?b") (auto simp: openMutationStream_def)
  obtain rts where rt: "makeRestartTsForVbs k ?b vbnos = Inr rts"
    using assms(1,3) vb by (cases "makeRestartTsForVbs k ?b vbnos") (auto simp: openMutationStream_def)
  obtain err vars n where run: "Run MAX_KV_REQUEST_RETRY (openMutationStream_fn M ?b vbnos addrs env)
      \<lparr>activeTs = None, rollbackTs = None\<rparr> = (err, vars, n)"
    by (cases "Run MAX_KV_REQUEST_RETRY (openMutationStream_fn M ?b vbnos addrs env)
      \<lparr>activeTs = None, rollbackTs = None\<rparr>") auto
  have msg: "(msg, attempts) = (case rollbackTs vars of
        Some ts \<Rightarrow> (MsgRollback streamId ?b (ToTsVbuuid M ts nvb), n)
      | None \<Rightarrow> (case err of Some e \<Rightarrow> (fatal e, n) | None \<Rightarrow> (MsgSuccess, n)))"
    using assms(1,2) vb rt run by (simp add: openMutationStream_def)
  then have n: "attempts = n" by (auto split: option.splits)
  have 1: "Run_loop MAX_KV_REQUEST_RETRY 0 (openMutationStream_fn M ?b vbnos addrs env) None
        \<lparr>activeTs = None, rollbackTs = None\<rparr> = (err, vars, n)"
    using run by (simp add: Run_def)
  have 3: "\<And>j err s e1 s1. rollbackTs s = None \<Longrightarrow>
        openMutationStream_fn M ?b vbnos addrs env j err s = (Some e1, s1) \<Longrightarrow> rollbackTs s1 = None"
    by (rule openMutationStream_fn_error)
  have 4: "\<And>err s. rollbackTs s = None \<Longrightarrow>
        fst (openMutationStream_fn M ?b vbnos addrs env r err s) = None
        \<and> (\<exists>t ts. rollbackContributions M ?b addrs (env r) = t # ts
              \<and> rollbackTs (snd (openMutationStream_fn M ?b vbnos addrs env r err s))
                  = Some (foldl (Union M) (Clone M t) ts))"
    using openMutationStream_fn_rollback [where M = M and env = env and r = r, OF assms(4)] by blast
  have 5: "r < n" using assms(3) n by simp
  have "n = Suc r \<and> err = None
      \<and> (\<exists>t ts. rollbackContributions M ?b addrs (env r) = t # ts
              \<and> rollbackTs vars = Some (foldl (Union M) (Clone M t) ts))"
    using Run_loop_first_success [of MAX_KV_REQUEST_RETRY 0 "openMutationStream_fn M ?b vbnos addrs env"
        None "\<lparr>activeTs = None, rollbackTs = None\<rparr>" err vars n "\<lambda>s. rollbackTs s = None" r
        "\<lambda>s. \<exists>t ts. rollbackContributions M ?b addrs (env r) = t # ts
              \<and> rollbackTs s = Some (foldl (Union M) (Clone M t) ts)", OF 1 _ 3 4 _ 5]
    by simp
  then obtain t ts where "n = Suc r" "rollbackContributions M ?b addrs (env r) = t # ts"
    "rollbackTs vars = Some (foldl (Union M) (Clone M t) ts)" by auto
  then show ?thesis using msg by simp
qed

theorem rollback_precedence_witness:
  "openMutationStream simpleMethods cluster3 2 env_rollback 1 (inst1 # [])
     = (MsgRollback 1 ''default'' (''default'', [(1, 3), (0, 4)]), 1)
   \<and> getAllProjectorAddrs cluster3 = Inr [''p1'', ''p2'', ''p3'']
   \<and> (0 :: nat) < 1
   \<and> contributesRollback simpleMethods (Bucket (Defn inst1)) [''p1'', ''p2'', ''p3''] (env_rollback 0)
   \<and> (1 :: nat) = Suc 0
   \<and> (MsgRollback 1 ''default'' (''default'', [(1, 3), (0, 4)]) :: simpleTs Message) \<noteq> MsgSuccess
   \<and> rollbackContributions simpleMethods (Bucket (Defn inst1)) [''p1'', ''p2'', ''p3''] (env_rollback 0)
       = [(''default'', [(1, 2)]), (''default'', [(0, 4), (1, 3)])]
   \<and> (MsgRollback 1 ''default'' (''default'', [(1, 3), (0, 4)]) :: simpleTs Message)
       = MsgRollback 1 (Bucket (Defn inst1))
           (ToTsVbuuid simpleMethods
              (foldl (Union simpleMethods) (Clone simpleMethods (''default'', [(1, 2)]))
                 [(''default'', [(0, 4), (1, 3)])]) 2)"
proof -
  have o: "openMutationStream simpleMethods cluster3 2 env_rollback 1 (inst1 # [])
     = (MsgRollback 1 ''default'' (''default'', [(1, 3), (0, 4)]), 1)"
    by (simp add: openMutationStream_def cluster3_def inst1_def Run_def MAX_KV_REQUEST_RETRY_def
        numeral_3_eq_3 openMutationStream_fn_def openMutationStream_request_def env_rollback_def
        updateActiveTsFromResponse_def updateRollbackTsFromResponse_def simpleMethods_def
        simple_Union_def Let_def)
  have a: "getAllProjectorAddrs cluster3 = Inr [''p1'', ''p2'', ''p3'']"
    by (simp add: cluster3_def)
  have r: "(0 :: nat) < 1" by simp
  have c: "contributesRollback simpleMethods (Bucket (Defn inst1)) [''p1'', ''p2'', ''p3''] (env_rollback 0)"
    by (simp add: contributesRollback_def env_rollback_def simpleMethods_def inst1_def)
  have l: "rollbackContributions simpleMethods (Bucket (Defn inst1)) [''p1'', ''p2'', ''p3''] (env_rollback 0)
       = [(''default'', [(1, 2)]), (''default'', [(0, 4), (1, 3)])]"
    by (simp add: rollbackContributions_def responseContributions_def env_rollback_def
        simpleMethods_def inst1_def)
  from rollback_precedence [OF o a r c]
  show ?thesis using o a r c l by (simp add: simpleMethods_def simple_Union_def inst1_def)
qed

lemma removal_fold_benign:
  assumes "\<forall>addr \<in> set addrs. answers addr = Stopped \<or> answers addr = Called None
             \<or> answers addr = Called (Some ErrorTopicMissing)"
  shows "foldl (\<lambda>err addr.
        case answers addr of
          Stopped \<Rightarrow> err
        | Called None \<Rightarrow> err
        | Called (Some ret) \<Rightarrow> if ret = ErrorTopicMissing then err else Some ret)
       err addrs = err"
  using assms by (induction addrs arbitrary: err) auto

lemma add_fold_error:
  assumes "addr \<in> set addrs" and "answers addr = Called (Some e)"
  shows "foldl (\<lambda>err addr.
        case answers addr of
          Stopped \<Rightarrow> err
        | Called None \<Rightarrow> err
        | Called (Some ret) \<Rightarrow> Some ret)
       err addrs \<noteq> None"
proof -
  have keep: "foldl (\<lambda>err addr.
        case answers addr of
          Stopped \<Rightarrow> err
        | Called None \<Rightarrow> err
        | Called (Some ret) \<Rightarrow> Some ret)
       err xs \<noteq> None" if "err \<noteq> None" for err xs
    using that by (induction xs arbitrary: err) (auto split: call.splits option.splits)
  from assms(1) show ?thesis
  proof (induction addrs arbitrary: err)
    case Nil
    then show ?case by simp
  next
    case (Cons x xs)
    show ?case
    proof (cases "x = addr")
      case True
      then show ?thesis using assms(2) keep [of "Some e" xs] by simp
    next
      case False
      then have "addr \<in> set xs" using Cons.prems by simp
      from Cons.IH [OF this] show ?thesis by simp
    qed
  qed
qed

lemma Run_loop_all_fail:
  assumes "\<And>j err s. fst (call j err s) \<noteq> None"
  shows "fst (Run_loop (Suc k) r0 call err s) \<noteq> None"
proof (induction k arbitrary: r0 err s)
  case 0
  obtain x s1 where c: "call r0 err s = (x, s1)" by (cases "call r0 err s")
  then have "x \<noteq> None" using assms [of r0 err s] by simp
  then show ?case using c by auto
next
  case (Suc k)
  obtain x s1 where c: "call r0 err s = (x, s1)" by (cases "call r0 err s")
  then have "x \<noteq> None" using assms [of r0 err s] by simp
  then obtain e where "x = Some e" by auto
  then show ?case using c Suc.IH [of "Suc r0" "Some e" s1] by simp
qed

lemma removal_first_attempt:
  assumes "getAllProjectorAddrs k = Inr addrs"
    and "\<forall>addr \<in> set addrs. env 0 addr = Stopped \<or> env 0 addr = Called None
             \<or> env 0 addr = Called (Some ErrorTopicMissing)"
  shows "deleteIndexesFromStream k env streamId indexInstList = MsgSuccess"
    and "deleteBucketsFromStream k env streamId buckets = MsgSuccess"
    and "closeMutationStream k env streamId = MsgSuccess"
  using assms(1) removal_fold_benign [OF assms(2), of None]
  by (simp_all add: deleteIndexesFromStream_def deleteBucketsFromStream_def closeMutationStream_def
      deleteIndexesFromStream_fn_def deleteBucketsFromStream_fn_def closeMutationStream_fn_def
      Run_def MAX_KV_REQUEST_RETRY_def numeral_3_eq_3)

lemma add_topicMissing_fatal:
  assumes "getAllProjectorAddrs k = Inr addrs"
    and "\<And>r. \<exists>addr \<in> set addrs. \<exists>e. env r addr = Called (Some e)"
  shows "\<exists>e. addIndexForExistingBucket k env streamId indexInstList = fatal e"
proof -
  have "fst (addIndexForExistingBucket_fn addrs env j err s) \<noteq> None" for j err s
    using assms(2) [of j] add_fold_error [of _ addrs "env j"]
    by (auto simp: addIndexForExistingBucket_fn_def)
  then have "fst (Run_loop (Suc 2) 0 (addIndexForExistingBucket_fn addrs env) None ()) \<noteq> None"
    by (rule Run_loop_all_fail)
  then show ?thesis
    using assms(1)
    by (auto simp: addIndexForExistingBucket_def Run_def MAX_KV_REQUEST_RETRY_def numeral_3_eq_3
        split: prod.splits option.splits)
qed

text \<open>
  C8. Three projectors; in the first attempt p2 fails with a transient error, in every
  later attempt its only error is topic-missing and the other projectors succeed. Each
  attempt is handed the error of the attempt before it, and an attempt that meets
  nothing but topic-missing returns the error it was handed: the remove-indexes,
  remove-bucket and close-stream operations all report the Fatal error of the first
  attempt when the attempts are used up, although every projector error of the final
  attempt is topic-missing. When topic-missing is the only error from the first attempt
  on, remove-indexes reports \<^verbatim>\<open>MsgSuccess\<close> and add-indexes reports the Fatal error.
\<close>

theorem topicMissing_after_transient_error:
  "(deleteIndexesFromStream cluster3 env_flaky 1 [inst1] :: simpleTs Message)
     = fatal (ErrorOther ''connection refused'')
   \<and> (deleteBucketsFromStream cluster3 env_flaky 1 [''default''] :: simpleTs Message)
     = fatal (ErrorOther ''connection refused'')
   \<and> (closeMutationStream cluster3 env_flaky 1 :: simpleTs Message)
     = fatal (ErrorOther ''connection refused'')
   \<and> env_flaky 1 ''p1'' = Called None
   \<and> env_flaky 1 ''p2'' = Called (Some ErrorTopicMissing)
   \<and> env_flaky 1 ''p3'' = Called None
   \<and> env_flaky 2 ''p1'' = Called None
   \<and> env_flaky 2 ''p2'' = Called (Some ErrorTopicMissing)
   \<and> env_flaky 2 ''p3'' = Called None
   \<and> (deleteIndexesFromStream cluster3 env_missing 1 [inst1] :: simpleTs Message) = MsgSuccess
   \<and> (addIndexForExistingBucket cluster3 env_missing 1 [inst1] :: simpleTs Message)
     = fatal ErrorTopicMissing"
  by (simp add: deleteIndexesFromStream_def deleteBucketsFromStream_def closeMutationStream_def
      addIndexForExistingBucket_def addIndexForExistingBucket_fn_def
      deleteIndexesFromStream_fn_def deleteBucketsFromStream_fn_def closeMutationStream_fn_def
      Run_def MAX_KV_REQUEST_RETRY_def numeral_3_eq_3 cluster3_def env_flaky_def env_missing_def fatal_def)

end
